theory Spec2Isabelle
  imports Main "HOL-Library.Word"
begin

unbundle bit_operations_syntax

section \<open>Data model of \<^verbatim>\<open>signal_parser.h\<close>\<close>

text \<open>
  \<^verbatim>\<open>CodeTime\<close> is \<^verbatim>\<open>uint16_t\<close>, \<^verbatim>\<open>CodeType\<close> is \<^verbatim>\<open>int\<close>. Every \<^verbatim>\<open>uint8_t\<close> field is an
  8-bit word, so that counters wrap as they do in the source. Arithmetic that the source
  performs in \<^verbatim>\<open>int\<close> (after integer promotion, 32 bits on the targets of the library) is
  written on \<open>nat\<close>/\<open>int\<close> and truncated where the source stores the result.
\<close>

type_synonym CodeTime = "16 word"
type_synonym CodeType = int

definition NUL :: char where
  "NUL = CHR 0x00"

definition MAX_CODELENGTH :: nat where
  "MAX_CODELENGTH = 8"

definition MAX_SEQUENCE_LENGTH :: nat where
  "MAX_SEQUENCE_LENGTH = 120"

definition PROTNAME_LEN :: nat where
  "PROTNAME_LEN = 12"

definition SP_START :: CodeType where
  "SP_START = 1"

definition SP_DATA :: CodeType where
  "SP_DATA = 2"

definition SP_END :: CodeType where
  "SP_END = 4"

definition SP_ANY :: CodeType where
  "SP_ANY = SP_DATA OR SP_END"

text \<open>
  \<^verbatim>\<open>struct Code\<close>. The arrays \<^verbatim>\<open>minTime\<close> and \<^verbatim>\<open>maxTime\<close> are the lists of their
  initialised entries: \<^verbatim>\<open>newCode\<close> writes the first \<^verbatim>\<open>length\<close> entries of memory that
  comes from \<^verbatim>\<open>realloc\<close>, and a read of any other entry is a fault of the model.
\<close>

record Code =
  protId :: "8 word"
  ctype :: CodeType
  cname :: char
  clength :: "8 word"
  minTime :: "CodeTime list"
  maxTime :: "CodeTime list"
  cnt :: "8 word"
  valid :: bool

text \<open>\<^verbatim>\<open>struct Protocol\<close>; \<open>pname\<close> holds the characters before the terminating NUL.\<close>

record Protocol =
  pid :: "8 word"
  pname :: string
  minCodeLen :: "8 word"
  maxCodeLen :: "8 word"
  tolerance :: "8 word"
  sendRepeat :: "8 word"
  plength :: "8 word"

text \<open>
  The member variables of \<^verbatim>\<open>class SignalParser\<close>. The tables \<^verbatim>\<open>_protocol\<close> and
  \<^verbatim>\<open>_code\<close> are lists (their counts are the list lengths, the pointers are null exactly
  when the lists are empty). \<open>seq\<close> holds \<^verbatim>\<open>_seq[0 .. _seq_length - 1]\<close>.
  \<^verbatim>\<open>_seq_protocol\<close> points into the protocol table, whose entries never change once
  written, so the model keeps the entry it points to. \<open>callbackFunc\<close> tells whether a
  callback is attached, and \<open>sink\<close> is the list of the strings the callback was called
  with, oldest first.
\<close>

record SignalParser =
  debugMode :: bool
  protocol :: "Protocol list"
  code :: "Code list"
  seq :: string
  seq_length :: "8 word"
  seq_codelength :: "8 word"
  seq_protocol :: "Protocol option"
  callbackFunc :: bool
  sink :: "string list"

text \<open>What the source does where the model has no value: undefined behaviour.\<close>

datatype fault = NullCallback | NullProtocol | SlotOutOfRange | SeqOverflow | NullSequence

text \<open>A zero-initialised parser object (static storage).\<close>

definition new_parser :: SignalParser where
  "new_parser = \<lparr>debugMode = False, protocol = [], code = [], seq = [], seq_length = 0,
     seq_codelength = 0, seq_protocol = None, callbackFunc = False, sink = []\<rparr>"

text \<open>The characters of a C string: those before the first NUL.\<close>

definition cstr :: "string \<Rightarrow> string" where
  "cstr s = takeWhile (\<lambda>ch. ch \<noteq> NUL) s"

section \<open>Registry\<close>

fun findProt_id :: "Protocol list \<Rightarrow> 8 word \<Rightarrow> Protocol option" where
  "findProt_id [] i = None"
| "findProt_id (p # ps) i = (if pid p = i then Some p else findProt_id ps i)"

fun findProt_name :: "Protocol list \<Rightarrow> string \<Rightarrow> Protocol option" where
  "findProt_name [] n = None"
| "findProt_name (p # ps) n = (if cstr n = pname p then Some p else findProt_name ps n)"

fun findCode :: "Code list \<Rightarrow> 8 word \<Rightarrow> char \<Rightarrow> Code option" where
  "findCode [] i ch = None"
| "findCode (c # cs) i ch =
     (if protId c = i \<and> cname c = ch then Some c else findCode cs i ch)"

definition resetCode :: "bool \<Rightarrow> SignalParser \<Rightarrow> SignalParser" where
  "resetCode all s =
     (let s1 = s\<lparr>code := map (\<lambda>c. c\<lparr>cnt := 0, valid := True\<rparr>) (code s)\<rparr>
      in if all then s1\<lparr>seq_protocol := None, seq_length := 0, seq_codelength := 0, seq := []\<rparr>
         else s1)"

definition init :: "bool \<Rightarrow> SignalParser \<Rightarrow> SignalParser" where
  "init dbg s = s\<lparr>debugMode := dbg\<rparr>"

definition attachCallback :: "bool \<Rightarrow> SignalParser \<Rightarrow> SignalParser" where
  "attachCallback f s = s\<lparr>callbackFunc := f\<rparr>"

text \<open>
  \<^verbatim>\<open>newProtocol\<close> returns the id and the new parser. \<^verbatim>\<open>_protocolCount\<close> is an
  \<^verbatim>\<open>int\<close>; the id field and the return value are \<^verbatim>\<open>uint8_t\<close>.
\<close>

definition newProtocol ::
  "SignalParser \<Rightarrow> string \<Rightarrow> 8 word \<Rightarrow> 8 word \<Rightarrow> 8 word \<Rightarrow> 8 word \<Rightarrow> 8 word \<times> SignalParser" where
  "newProtocol s name minLen maxLen tol rep =
     (if minLen > maxLen \<or> unat maxLen \<ge> MAX_SEQUENCE_LENGTH then (0, s)
      else
        let protocolCount = length (protocol s) + 1;
            p = \<lparr>pid = of_nat protocolCount,
                 pname = take (PROTNAME_LEN - 1) (cstr name),
                 minCodeLen = minLen, maxCodeLen = maxLen,
                 tolerance = tol, sendRepeat = rep, plength = 0\<rparr>
        in (of_nat protocolCount, s\<lparr>protocol := protocol s @ [p]\<rparr>))"

text \<open>
  \<^verbatim>\<open>radius = (t * p->tolerance) / 100\<close>: the product and the quotient are \<^verbatim>\<open>int\<close>, the
  result is stored in a \<^verbatim>\<open>uint16_t\<close>.
\<close>

definition radius :: "Protocol \<Rightarrow> CodeTime \<Rightarrow> CodeTime" where
  "radius p t = of_nat ((unat t * unat (tolerance p)) div 100)"

text \<open>
  \<^verbatim>\<open>newCode\<close>; \<open>ts\<close> are the arguments \<^verbatim>\<open>t1 .. t8\<close> (an absent argument is 0). The
  non-zero ones are stored in order, then each is replaced by its window.
\<close>

definition newCode ::
  "SignalParser \<Rightarrow> 8 word \<Rightarrow> char \<Rightarrow> CodeType \<Rightarrow> CodeTime list \<Rightarrow> SignalParser" where
  "newCode s protId' ch type' ts =
     (case findProt_id (protocol s) protId' of
        None \<Rightarrow> s
      | Some p \<Rightarrow>
          let base = filter (\<lambda>t. t > 0) (take MAX_CODELENGTH ts);
              c = \<lparr>protId = protId', ctype = type', cname = ch,
                   clength = of_nat (length base),
                   minTime = map (\<lambda>t. t - radius p t) base,
                   maxTime = map (\<lambda>t. t + radius p t) base,
                   cnt = 0, valid = True\<rparr>
          in s\<lparr>code := code s @ [c]\<rparr>)"

definition getSendRepeat :: "SignalParser \<Rightarrow> string \<Rightarrow> int" where
  "getSendRepeat s name =
     (case findProt_name (protocol s) name of None \<Rightarrow> 0 | Some p \<Rightarrow> uint (sendRepeat p))"

section \<open>Matcher\<close>

text \<open>\<^verbatim>\<open>c->type & flag\<close> as a condition.\<close>

definition has :: "Code \<Rightarrow> CodeType \<Rightarrow> bool" where
  "has c flag = (ctype c AND flag \<noteq> 0)"

text \<open>A read of \<^verbatim>\<open>minTime[i]\<close> or \<^verbatim>\<open>maxTime[i]\<close>.\<close>

definition slot :: "CodeTime list \<Rightarrow> int \<Rightarrow> fault + CodeTime" where
  "slot xs i = (if 0 \<le> i \<and> nat i < length xs then Inr (xs ! nat i) else Inl SlotOutOfRange)"

text \<open>
  The last two branches of the condition chain of \<^verbatim>\<open>parse\<close>: the window test. The
  result is the new \<^verbatim>\<open>valid\<close> and whether \<^verbatim>\<open>retryCandidate\<close> is set.
\<close>

definition window_check :: "SignalParser \<Rightarrow> CodeTime \<Rightarrow> Code \<Rightarrow> int \<Rightarrow> fault + bool \<times> bool" where
  "window_check s duration c i =
     (case slot (minTime c) i of
        Inl e \<Rightarrow> Inl e
      | Inr lo \<Rightarrow>
          if duration < lo then Inr (False, i > 0 \<and> seq_length s = 0)
          else (case slot (maxTime c) i of
                  Inl e \<Rightarrow> Inl e
                | Inr hi \<Rightarrow>
                    if duration > hi then Inr (False, i > 0 \<and> seq_length s = 0)
                    else Inr (True, False)))"

text \<open>
  The condition chain \<^verbatim>\<open>// 1. check conditions\<close> for one code that is still valid, with
  \<^verbatim>\<open>int8_t i = c->cnt\<close>.
\<close>

definition check_code :: "SignalParser \<Rightarrow> CodeTime \<Rightarrow> Code \<Rightarrow> fault + bool \<times> bool" where
  "check_code s duration c =
     (let i = sint (cnt c) in
      if seq_length s = 0 \<and> \<not> has c SP_START then Inr (False, False)
      else if seq_length s > 0 \<and> seq_protocol s = None then Inl NullProtocol
      else if seq_length s > 0 \<and> Some (protId c) \<noteq> map_option pid (seq_protocol s)
        then Inr (False, False)
      else if seq_length s > 0 \<and> \<not> has c SP_ANY then Inr (False, False)
      else if has c SP_END \<and> i = uint (clength c) - 1 then
        (case slot (minTime c) i of
           Inl e \<Rightarrow> Inl e
         | Inr lo \<Rightarrow> if duration > lo then Inr (True, False) else window_check s duration c i)
      else window_check s duration c i)"

text \<open>
  The loop over the code table. \<open>done\<close> are the codes already visited (with their
  updates), the list after it the codes still to visit. When a code completes, its name
  is appended to the sequence (\<^verbatim>\<open>_seq[_seq_length++] = c->name; _seq[_seq_length] = NUL\<close>,
  in an array of \<^verbatim>\<open>MAX_SEQUENCE_LENGTH\<close> characters), \<^verbatim>\<open>_resetCode(false)\<close> runs and the
  loop is left.
\<close>

record scan =
  sc_state :: SignalParser
  foundCode :: "Code option"
  match :: bool
  retryCandidate :: bool

fun scan_codes ::
  "SignalParser \<Rightarrow> CodeTime \<Rightarrow> Code list \<Rightarrow> Code list \<Rightarrow> bool \<Rightarrow> bool \<Rightarrow> fault + scan" where
  "scan_codes s duration done [] m r =
     Inr \<lparr>sc_state = s\<lparr>code := done\<rparr>, foundCode = None, match = m, retryCandidate = r\<rparr>"
| "scan_codes s duration done (c # cs) m r =
     (if \<not> valid c then scan_codes s duration (done @ [c]) cs m r
      else
        (case check_code s duration c of
           Inl e \<Rightarrow> Inl e
         | Inr (v, rt) \<Rightarrow>
             if \<not> v then scan_codes s duration (done @ [c\<lparr>valid := False\<rparr>]) cs m (r \<or> rt)
             else
               let c' = c\<lparr>valid := True, cnt := cnt c + 1\<rparr> in
               if sint (cnt c') = uint (clength c') then
                 (if unat (seq_length s) + 1 \<ge> MAX_SEQUENCE_LENGTH then Inl SeqOverflow
                  else
                    Inr \<lparr>sc_state =
                           resetCode False
                             (s\<lparr>code := done @ c' # cs,
                                seq := seq s @ [cname c'],
                                seq_length := seq_length s + 1\<rparr>),
                         foundCode = Some c', match = True, retryCandidate = r \<or> rt\<rparr>)
               else scan_codes s duration (done @ [c']) cs True (r \<or> rt)))"

text \<open>Decimal digits, as \<^verbatim>\<open>%d\<close> prints a non-negative number.\<close>

fun dec :: "nat \<Rightarrow> string" where
  "dec n = (if n < 10 then [''0123456789'' ! n] else dec (n div 10) @ [''0123456789'' ! (n mod 10)])"

declare dec.simps [simp del]

definition emit :: "string \<Rightarrow> SignalParser \<Rightarrow> SignalParser" where
  "emit str s = s\<lparr>sink := sink s @ [str]\<rparr>"

text \<open>
  The debug callback of an aborted attempt:
  \<^verbatim>\<open>snprintf(buffer, 16, "*%d,%d", _seq_codelength, _seq_length); _callbackFunc(buffer)\<close>.
  The callback is called without a test for null.
\<close>

definition debug_callback :: "SignalParser \<Rightarrow> fault + SignalParser" where
  "debug_callback s =
     (if debugMode s \<and> seq_length s > 10 then
        (if callbackFunc s then
           Inr (emit (take 15 (''*'' @ dec (unat (seq_codelength s)) @ '','' @ dec (unat (seq_length s)))) s)
         else Inl NullCallback)
      else Inr s)"

text \<open>
  The block \<^verbatim>\<open>if (foundCode) { ... }\<close>. The text passed to the callback is
  \<^verbatim>\<open>snprintf(buffer, 64, "%s %s", _seq_protocol->name, _seq)\<close>.
\<close>

definition found_code :: "Code \<Rightarrow> SignalParser \<Rightarrow> fault + SignalParser" where
  "found_code fc s =
     (if seq_length s = 1 then
        (if \<not> has fc SP_START then Inr (resetCode True s)
         else Inr (s\<lparr>seq_protocol := findProt_id (protocol s) (protId fc)\<rparr>))
      else
        (case seq_protocol s of
           None \<Rightarrow>
             (if has fc SP_END \<and> \<not> callbackFunc s then Inr (resetCode True s)
              else Inl NullProtocol)
         | Some p \<Rightarrow>
             if has fc SP_END \<or> seq_length s = maxCodeLen p then
               (if callbackFunc s \<and> seq_length s \<ge> minCodeLen p then
                  Inr (resetCode True (emit (take 63 (pname p @ '' '' @ cstr (seq s))) s))
                else Inr (resetCode True s))
             else if unat (seq_length s) = MAX_SEQUENCE_LENGTH - 2 then Inr (resetCode True s)
             else Inr s))"

text \<open>
  \<^verbatim>\<open>parse(CodeTime duration)\<close>. It calls itself when no code matched and
  \<^verbatim>\<open>retryCandidate\<close> is set; the flag needs a code whose \<^verbatim>\<open>cnt\<close> is not zero, and the
  call follows \<^verbatim>\<open>_resetCode(true)\<close>, which is why the recursion ends.
\<close>

lemma scan_retry_cnt:
  "scan_codes s d done cs m r = Inr res \<Longrightarrow> retryCandidate res \<Longrightarrow> \<not> r \<Longrightarrow>
   \<exists>c \<in> set cs. cnt c \<noteq> 0"
proof (induction cs arbitrary: "done" m r)
  case Nil
  then show ?case by auto
next
  case (Cons c cs)
  then show ?case
    by (auto simp: check_code_def window_check_def Let_def
        split: if_splits sum.splits prod.splits)
qed

function parse :: "SignalParser \<Rightarrow> CodeTime \<Rightarrow> fault + SignalParser" where
  "parse s duration =
     (if protocol s = [] then Inr s
      else
        (case scan_codes s duration [] (code s) False False of
           Inl e \<Rightarrow> Inl e
         | Inr r \<Rightarrow>
             if \<not> match r then
               (case debug_callback (sc_state r) of
                  Inl e \<Rightarrow> Inl e
                | Inr s1 \<Rightarrow>
                    if retryCandidate r then parse (resetCode True s1) duration
                    else Inr (resetCode True s1))
             else
               (let s1 = (sc_state r)\<lparr>seq_codelength := seq_codelength (sc_state r) + 1\<rparr> in
                case foundCode r of
                  None \<Rightarrow> Inr s1
                | Some fc \<Rightarrow> found_code fc s1)))"
  by pat_completeness auto
termination
proof (relation "measure (\<lambda>(s, d). if \<exists>c \<in> set (code s). cnt c \<noteq> 0 then 1 else 0)")
  show "wf (measure (\<lambda>(s, d). if \<exists>c \<in> set (code s). cnt c \<noteq> 0 then 1 else (0::nat)))"
    by simp
next
  fix s :: SignalParser and duration r s1
  assume a: "scan_codes s duration [] (code s) False False = Inr r" "retryCandidate r"
  from scan_retry_cnt[OF a(1) a(2)] have "\<exists>c \<in> set (code s). cnt c \<noteq> 0" by simp
  then show "((resetCode True s1, duration), (s, duration))
      \<in> measure (\<lambda>(s, d). if \<exists>c \<in> set (code s). cnt c \<noteq> 0 then 1 else 0)"
    by (auto simp: resetCode_def)
qed

declare parse.simps [simp del]

text \<open>\<^verbatim>\<open>parse(CodeTime *durations)\<close>: the durations up to the first zero, one after the other.\<close>

fun parse_all :: "SignalParser \<Rightarrow> CodeTime list \<Rightarrow> fault + SignalParser" where
  "parse_all s [] = Inr s"
| "parse_all s (d # ds) =
     (if d = 0 then Inr s
      else (case parse s d of Inl e \<Rightarrow> Inl e | Inr s' \<Rightarrow> parse_all s' ds))"

section \<open>Composer\<close>

text \<open>The midpoints of the slots of a code, \<^verbatim>\<open>(c->minTime[i] + c->maxTime[i]) / 2\<close>.\<close>

definition midpoint :: "CodeTime \<Rightarrow> CodeTime \<Rightarrow> CodeTime" where
  "midpoint lo hi = of_nat ((unat lo + unat hi) div 2)"

definition code_timings :: "Code \<Rightarrow> fault + CodeTime list" where
  "code_timings c =
     (if unat (clength c) \<le> length (minTime c) \<and> unat (clength c) \<le> length (maxTime c)
      then Inr (map (\<lambda>i. midpoint (minTime c ! i) (maxTime c ! i)) [0 ..< unat (clength c)])
      else Inl SlotOutOfRange)"

text \<open>
  The loop \<^verbatim>\<open>while (*s && len)\<close> of \<^verbatim>\<open>compose\<close>: \<open>cs\<close> are the characters from \<^verbatim>\<open>s\<close>
  on, \<open>len\<close> is decremented once per character.
\<close>

fun compose_loop :: "SignalParser \<Rightarrow> Protocol \<Rightarrow> string \<Rightarrow> int \<Rightarrow> fault + CodeTime list" where
  "compose_loop st p [] len = Inr []"
| "compose_loop st p (ch # cs) len =
     (if len = 0 then Inr []
      else
        (case findCode (code st) (pid p) ch of
           None \<Rightarrow> compose_loop st p cs (len - 1)
         | Some c \<Rightarrow>
             (case code_timings c of
                Inl e \<Rightarrow> Inl e
              | Inr ts \<Rightarrow>
                  (case compose_loop st p cs (len - 1) of
                     Inl e \<Rightarrow> Inl e
                   | Inr rest \<Rightarrow> Inr (ts @ rest)))))"

text \<open>
  \<^verbatim>\<open>compose(sequence, timings, len)\<close>. \<open>timings\<close> tells whether the pointer is not null.
  The result is what is written to the buffer, \<open>None\<close> when nothing is written. The
  pointer \<^verbatim>\<open>s\<close> is null when the sequence has no space.
\<close>

definition compose :: "SignalParser \<Rightarrow> string \<Rightarrow> bool \<Rightarrow> int \<Rightarrow> fault + CodeTime list option" where
  "compose st sequence timings len =
     (let sq = cstr sequence;
          protname = takeWhile (\<lambda>ch. ch \<noteq> CHR '' '') (take (PROTNAME_LEN - 1) sq);
          s = (if CHR '' '' \<in> set sq then Some (tl (dropWhile (\<lambda>ch. ch \<noteq> CHR '' '') sq)) else None)
      in case findProt_name (protocol st) protname of
           None \<Rightarrow> Inr None
         | Some p \<Rightarrow>
             if \<not> timings then Inr None
             else
               (case s of
                  None \<Rightarrow> Inl NullSequence
                | Some cs \<Rightarrow>
                    (case compose_loop st p cs len of
                       Inl e \<Rightarrow> Inl e
                     | Inr ts \<Rightarrow> Inr (Some (ts @ [0])))))"

section \<open>Notions used in the statements\<close>

text \<open>
  The eligibility gate, the first three branches of the condition chain: with an empty
  sequence the code must carry START, otherwise it must belong to the locked protocol
  and carry DATA or END.
\<close>

definition eligible :: "SignalParser \<Rightarrow> Code \<Rightarrow> bool" where
  "eligible s c =
     (if seq_length s = 0 then has c SP_START
      else (\<exists>p. seq_protocol s = Some p \<and> protId c = pid p) \<and> has c SP_ANY)"

text \<open>
  What one pass of the loop does with one code: whether reading its slot is a fault,
  whether the code accepts the duration, whether it sets \<^verbatim>\<open>retryCandidate\<close>, whether it
  completes, and the code as the loop leaves it when the loop runs on.
\<close>

definition faults :: "SignalParser \<Rightarrow> CodeTime \<Rightarrow> Code \<Rightarrow> bool" where
  "faults s d c = (valid c \<and> (case check_code s d c of Inl e \<Rightarrow> True | Inr x \<Rightarrow> False))"

definition accepts :: "SignalParser \<Rightarrow> CodeTime \<Rightarrow> Code \<Rightarrow> bool" where
  "accepts s d c = (valid c \<and> (case check_code s d c of Inl e \<Rightarrow> False | Inr x \<Rightarrow> fst x))"

definition flags_retry :: "SignalParser \<Rightarrow> CodeTime \<Rightarrow> Code \<Rightarrow> bool" where
  "flags_retry s d c = (valid c \<and> (case check_code s d c of Inl e \<Rightarrow> False | Inr x \<Rightarrow> snd x))"

definition completes :: "SignalParser \<Rightarrow> CodeTime \<Rightarrow> Code \<Rightarrow> bool" where
  "completes s d c = (accepts s d c \<and> sint (cnt c + 1) = uint (clength c))"

definition advance :: "SignalParser \<Rightarrow> CodeTime \<Rightarrow> Code \<Rightarrow> Code" where
  "advance s d c =
     (if \<not> valid c then c
      else if accepts s d c then c\<lparr>valid := True, cnt := cnt c + 1\<rparr>
      else c\<lparr>valid := False\<rparr>)"

text \<open>
  A code as \<^verbatim>\<open>newCode\<close> builds it from at least one non-zero time, while it is being
  matched: between one and eight slots, all of them initialised, \<^verbatim>\<open>cnt\<close> below the
  length, and an owner in the protocol table.
\<close>

definition ok_code :: "Protocol list \<Rightarrow> Code \<Rightarrow> bool" where
  "ok_code ps c =
     (0 < clength c \<and> clength c \<le> 8 \<and>
      length (minTime c) = unat (clength c) \<and> length (maxTime c) = unat (clength c) \<and>
      cnt c < clength c \<and> findProt_id ps (protId c) \<noteq> None)"

text \<open>The last three branches of the condition chain, for a code that passes the gate.\<close>

definition slot_check :: "SignalParser \<Rightarrow> CodeTime \<Rightarrow> Code \<Rightarrow> fault + bool \<times> bool" where
  "slot_check s d c =
     (if has c SP_END \<and> sint (cnt c) = uint (clength c) - 1 then
        (case slot (minTime c) (sint (cnt c)) of
           Inl e \<Rightarrow> Inl e
         | Inr lo \<Rightarrow> if d > lo then Inr (True, False) else window_check s d c (sint (cnt c)))
      else window_check s d c (sint (cnt c)))"

text \<open>
  The slot test in closed form, for a code whose expected slot is \<^verbatim>\<open>cnt\<close>: the end rule or
  the window.
\<close>

definition fits :: "Code \<Rightarrow> CodeTime \<Rightarrow> bool" where
  "fits c d =
     (let lo = minTime c ! unat (cnt c); hi = maxTime c ! unat (cnt c)
      in (has c SP_END \<and> cnt c + 1 = clength c \<and> d > lo) \<or> (lo \<le> d \<and> d \<le> hi))"

definition lock_ok :: "SignalParser \<Rightarrow> bool" where
  "lock_ok s = (seq_length s \<noteq> 0 \<longrightarrow> seq_protocol s \<noteq> None)"

text \<open>The fields of a code that the matcher never writes.\<close>

definition cdef :: "Code \<Rightarrow> Code" where
  "cdef c = c\<lparr>cnt := 0, valid := True\<rparr>"

text \<open>
  The state with which \<^verbatim>\<open>parse\<close> calls itself, \<open>None\<close> when it does not: the same tests
  as in \<^verbatim>\<open>parse\<close>, up to the call.
\<close>

definition retry_state :: "SignalParser \<Rightarrow> CodeTime \<Rightarrow> SignalParser option" where
  "retry_state s duration =
     (if protocol s = [] then None
      else
        (case scan_codes s duration [] (code s) False False of
           Inl e \<Rightarrow> None
         | Inr r \<Rightarrow>
             if \<not> match r then
               (case debug_callback (sc_state r) of
                  Inl e \<Rightarrow> None
                | Inr s1 \<Rightarrow> if retryCandidate r then Some (resetCode True s1) else None)
             else None))"

text \<open>
  What \<^verbatim>\<open>compose\<close> writes for one character of the code list: the midpoints of all
  slots of the first code with that name in the protocol, nothing when there is none.
\<close>

definition code_midpoints :: "Code \<Rightarrow> CodeTime list" where
  "code_midpoints c = map (\<lambda>i. midpoint (minTime c ! i) (maxTime c ! i)) [0 ..< unat (clength c)]"

definition char_timings :: "SignalParser \<Rightarrow> Protocol \<Rightarrow> char \<Rightarrow> CodeTime list" where
  "char_timings st p ch =
     (case findCode (code st) (pid p) ch of None \<Rightarrow> [] | Some c \<Rightarrow> code_midpoints c)"

text \<open>
  The invariant of the matcher. Every code is well formed. \<open>seq\<close> has \<^verbatim>\<open>_seq_length\<close>
  characters, fewer than \<^verbatim>\<open>MAX_SEQUENCE_LENGTH - 2\<close>. When the sequence is not empty, a
  protocol is locked; the first character is the name of a START code whose protocol is
  the locked one; every later character, at position \<open>n\<close>, is the name of a code of the
  locked protocol that carries DATA or END, and the sequence went on after it: the code
  does not carry END and \<open>n\<close> is not the protocol's \<^verbatim>\<open>maxCodeLen\<close>.
\<close>

definition locked_by :: "Code list \<Rightarrow> Protocol list \<Rightarrow> Protocol \<Rightarrow> char \<Rightarrow> bool" where
  "locked_by cs ps p ch =
     (\<exists>c \<in> set cs. cname c = ch \<and> has c SP_START \<and> findProt_id ps (protId c) = Some p)"

definition follower :: "Code list \<Rightarrow> Protocol \<Rightarrow> nat \<Rightarrow> char \<Rightarrow> bool" where
  "follower cs p n ch =
     (\<exists>c \<in> set cs. cname c = ch \<and> protId c = pid p \<and> has c SP_ANY \<and> \<not> has c SP_END \<and>
        of_nat n \<noteq> maxCodeLen p)"

fun followers :: "Code list \<Rightarrow> Protocol \<Rightarrow> nat \<Rightarrow> string \<Rightarrow> bool" where
  "followers cs p n [] = True"
| "followers cs p n (ch # rest) = (follower cs p n ch \<and> followers cs p (Suc n) rest)"

definition seq_inv :: "SignalParser \<Rightarrow> bool" where
  "seq_inv s =
     (case seq s of
        [] \<Rightarrow> True
      | ch # rest \<Rightarrow>
          (case seq_protocol s of
             None \<Rightarrow> False
           | Some p \<Rightarrow> locked_by (code s) (protocol s) p ch \<and> followers (code s) p 2 rest))"

definition invariant :: "SignalParser \<Rightarrow> bool" where
  "invariant s =
     ((\<forall>c \<in> set (code s). ok_code (protocol s) c) \<and>
      length (seq s) = unat (seq_length s) \<and>
      length (seq s) < MAX_SEQUENCE_LENGTH - 2 \<and>
      seq_inv s)"

text \<open>In debug mode a callback is attached: \<^verbatim>\<open>parse\<close> calls it without a test.\<close>

definition sink_ok :: "SignalParser \<Rightarrow> bool" where
  "sink_ok s = (debugMode s \<longrightarrow> callbackFunc s)"

text \<open>No code that is still valid accepts the duration.\<close>

definition no_match :: "SignalParser \<Rightarrow> CodeTime \<Rightarrow> bool" where
  "no_match s d = (\<forall>c \<in> set (code s). \<not> accepts s d c)"

text \<open>The two texts that \<^verbatim>\<open>parse\<close> formats, before \<^verbatim>\<open>snprintf\<close> cuts them to the buffer.\<close>

definition diagnostic :: "SignalParser \<Rightarrow> string" where
  "diagnostic s = ''*'' @ dec (unat (seq_codelength s)) @ '','' @ dec (unat (seq_length s))"

definition sequence_text :: "Protocol \<Rightarrow> string \<Rightarrow> string" where
  "sequence_text p cs = pname p @ '' '' @ cs"

text \<open>Two parsers with the same configuration and tables (the codes up to \<^verbatim>\<open>cnt\<close> and \<^verbatim>\<open>valid\<close>).\<close>

definition same_setup :: "SignalParser \<Rightarrow> SignalParser \<Rightarrow> bool" where
  "same_setup s s' =
     (debugMode s' = debugMode s \<and> callbackFunc s' = callbackFunc s \<and>
      protocol s' = protocol s \<and> map cdef (code s') = map cdef (code s))"

text \<open>
  Tables on which the midpoints of a code are recognised as that code. A code is known
  by its protocol id and its name. \<open>fits_at c i d\<close> is the slot test of \<open>c\<close> at slot
  \<open>i\<close>. Two codes can compete when both carry START, or when they belong to the same
  protocol and both carry DATA or END. \<open>told_apart x y\<close>: at some slot that both have,
  \<open>y\<close> rejects the midpoint of \<open>x\<close>. A table is unambiguous when protocol names are
  distinct, shorter than \<^verbatim>\<open>PROTNAME_LEN\<close>, without space; codes are distinct by protocol
  and name, their names are not NUL, their windows are not empty and start above zero;
  and any two codes that can compete are told apart.
\<close>

definition key :: "Code \<Rightarrow> 8 word \<times> char" where
  "key c = (protId c, cname c)"

definition fits_at :: "Code \<Rightarrow> nat \<Rightarrow> CodeTime \<Rightarrow> bool" where
  "fits_at c i d = fits (c\<lparr>cnt := of_nat i\<rparr>) d"

definition comparable :: "Code \<Rightarrow> Code \<Rightarrow> bool" where
  "comparable x y =
     (has x SP_START \<and> has y SP_START \<or>
      protId x = protId y \<and> has x SP_ANY \<and> has y SP_ANY)"

definition told_apart :: "Code \<Rightarrow> Code \<Rightarrow> bool" where
  "told_apart x y =
     (\<exists>i < min (unat (clength x)) (unat (clength y)). \<not> fits_at y i (code_midpoints x ! i))"

definition unambiguous :: "SignalParser \<Rightarrow> bool" where
  "unambiguous s =
     (distinct (map pname (protocol s)) \<and>
      (\<forall>p \<in> set (protocol s).
         CHR '' '' \<notin> set (pname p) \<and> NUL \<notin> set (pname p) \<and> length (pname p) < PROTNAME_LEN) \<and>
      distinct (map key (code s)) \<and>
      (\<forall>c \<in> set (code s). cname c \<noteq> NUL \<and>
         (\<forall>i < unat (clength c). 0 < minTime c ! i \<and> minTime c ! i \<le> maxTime c ! i)) \<and>
      (\<forall>x \<in> set (code s). \<forall>y \<in> set (code s).
         key x \<noteq> key y \<and> comparable x y \<longrightarrow> told_apart x y))"

text \<open>
  The parser \<open>u\<close> while the first \<open>k\<close> midpoints of the code \<open>c\<close> have been fed to \<open>t\<close>,
  in which every code was reset.
\<close>

definition tracked :: "SignalParser \<Rightarrow> Code \<Rightarrow> nat \<Rightarrow> SignalParser \<Rightarrow> bool" where
  "tracked t c k u =
     (u = t\<lparr>code := code u, seq_codelength := seq_codelength u\<rparr> \<and>
      map cdef (code u) = map cdef (code t) \<and>
      (\<forall>x \<in> set (code u).
         ok_code (protocol t) x \<and>
         (key x = key c \<longrightarrow> valid x \<and> cnt x = of_nat k) \<and>
         (key x \<noteq> key c \<longrightarrow> valid x \<longrightarrow>
            cnt x = of_nat k \<and> (\<forall>i < k. fits_at x i (code_midpoints c ! i)))))"

text \<open>Every code has \<^verbatim>\<open>cnt = 0\<close> and is valid, as after \<^verbatim>\<open>_resetCode\<close>.\<close>

definition all_reset :: "SignalParser \<Rightarrow> bool" where
  "all_reset t = (\<forall>x \<in> set (code t). cnt x = 0 \<and> valid x)"









section \<open>Example tables\<close>

text \<open>The parser after \<open>n\<close> more successful calls of \<^verbatim>\<open>newProtocol("p", 1, 2, 25, 3)\<close>.\<close>

fun register_many :: "nat \<Rightarrow> SignalParser \<Rightarrow> SignalParser" where
  "register_many 0 s = s"
| "register_many (Suc n) s = register_many n (snd (newProtocol s ''p'' 1 2 25 3))"

text \<open>
  One protocol with tolerance 25 and one code registered with
  \<^verbatim>\<open>newCode(1, 'a', SP_DATA, 60000, 0, 283)\<close>.
\<close>

definition one_code :: SignalParser where
  "one_code = newCode (snd (newProtocol new_parser ''p'' 1 2 25 3)) 1 (CHR ''a'') SP_DATA [60000, 0, 283]"

text \<open>
  The protocol \<^verbatim>\<open>it2\<close> with a start code, two data codes and an end code, and a
  callback attached.
\<close>

definition it2 :: SignalParser where
  "it2 = (let s0 = attachCallback True new_parser;
              s1 = snd (newProtocol s0 ''it2'' 20 40 25 3);
              s2 = newCode s1 1 (CHR ''s'') SP_START [283, 2658];
              s3 = newCode s2 1 (CHR ''_'') SP_DATA [286, 255, 296, 1269];
              s4 = newCode s3 1 (CHR ''#'') SP_DATA [286, 1269, 287, 267];
              s5 = newCode s4 1 (CHR ''x'') SP_END [286, 10000]
          in s5)"

text \<open>The \<^verbatim>\<open>it2\<close> parser after the duration 283, the first half of its start code.\<close>

definition it2_283 :: SignalParser where
  "it2_283 = it2\<lparr>code := [(code it2 ! 0)\<lparr>cnt := 1\<rparr>, (code it2 ! 1)\<lparr>valid := False\<rparr>,
     (code it2 ! 2)\<lparr>valid := False\<rparr>, (code it2 ! 3)\<lparr>valid := False\<rparr>], seq_codelength := 1\<rparr>"

text \<open>The \<^verbatim>\<open>it2\<close> parser after its start code.\<close>

definition it2_s :: SignalParser where
  "it2_s = it2\<lparr>seq := ''s'', seq_length := 1, seq_codelength := 2,
     seq_protocol := Some (hd (protocol it2))\<rparr>"

text \<open>
  The \<^verbatim>\<open>it2\<close> parser in debug mode after its start code and three data codes (14
  durations), and after its start code and ten data codes (42 durations).
\<close>

definition it2_debug_4 :: SignalParser where
  "it2_debug_4 = it2\<lparr>debugMode := True, seq := ''s###'', seq_length := 4, seq_codelength := 14,
     seq_protocol := Some (hd (protocol it2))\<rparr>"

definition it2_debug_11 :: SignalParser where
  "it2_debug_11 = it2\<lparr>debugMode := True, seq := ''s##########'', seq_length := 11,
     seq_codelength := 42, seq_protocol := Some (hd (protocol it2))\<rparr>"

text \<open>
  A protocol \<^verbatim>\<open>p\<close> that allows sequences of up to 100 codes, with a start code, a data
  code and an end code of one slot each, and the parser after the start code and \<open>n\<close>
  data codes.
\<close>

definition plain :: SignalParser where
  "plain = (let s0 = attachCallback True new_parser;
                s1 = snd (newProtocol s0 ''p'' 2 100 25 3);
                s2 = newCode s1 1 (CHR ''s'') SP_START [1000];
                s3 = newCode s2 1 (CHR ''a'') SP_DATA [500];
                s4 = newCode s3 1 (CHR ''x'') SP_END [5000]
            in s4)"

definition plain_after :: "nat \<Rightarrow> SignalParser" where
  "plain_after n = plain\<lparr>seq := CHR ''s'' # replicate n (CHR ''a''), seq_length := of_nat (Suc n),
     seq_codelength := of_nat (Suc n), seq_protocol := Some (hd (protocol plain))\<rparr>"

text \<open>
  A protocol \<^verbatim>\<open>p\<close> whose data code \<^verbatim>\<open>a\<close> (500) and end code \<^verbatim>\<open>b\<close> (600) have
  overlapping windows.
\<close>

definition overlap :: SignalParser where
  "overlap = (let s0 = attachCallback True new_parser;
                  s1 = snd (newProtocol s0 ''p'' 2 10 25 3);
                  s2 = newCode s1 1 (CHR ''s'') SP_START [1000];
                  s3 = newCode s2 1 (CHR ''a'') SP_DATA [500];
                  s4 = newCode s3 1 (CHR ''b'') SP_END [600]
              in s4)"

text \<open>
  A protocol with tolerance 25 and one start code registered with
  \<^verbatim>\<open>newCode(1, 's', SP_START, 60000)\<close>: its window is stored as 45000 to 9464.
\<close>

definition wide :: SignalParser where
  "wide = newCode (snd (newProtocol new_parser ''p'' 1 2 25 3)) 1 (CHR ''s'') SP_START [60000]"

section \<open>Evaluation of the example tables\<close>

lemmas consts_defs = MAX_CODELENGTH_def MAX_SEQUENCE_LENGTH_def PROTNAME_LEN_def
  SP_START_def SP_DATA_def SP_END_def SP_ANY_def NUL_def

lemma it2_eq: "it2 = \<lparr>debugMode = False,
    protocol =
      [\<lparr>pid = 1, pname = ''it2'', minCodeLen = 20, maxCodeLen = 40,
          tolerance = 25, sendRepeat = 3, plength = 0\<rparr>],
    code =
      [\<lparr>protId = 1, ctype = 1, cname = CHR ''s'', clength = 2,
          minTime = [213, 1994], maxTime = [353, 3322], cnt = 0,
          valid = True\<rparr>,
       \<lparr>protId = 1, ctype = 2, cname = CHR ''_'', clength = 4,
          minTime = [215, 192, 222, 952], maxTime = [357, 318, 370, 1586],
          cnt = 0, valid = True\<rparr>,
       \<lparr>protId = 1, ctype = 2, cname = CHR ''#'', clength = 4,
          minTime = [215, 952, 216, 201], maxTime = [357, 1586, 358, 333],
          cnt = 0, valid = True\<rparr>,
       \<lparr>protId = 1, ctype = 4, cname = CHR ''x'', clength = 2,
          minTime = [215, 7500], maxTime = [357, 12500], cnt = 0,
          valid = True\<rparr>],
    seq = [], seq_length = 0, seq_codelength = 0, seq_protocol = None,
    callbackFunc = True, sink = []\<rparr>"
  by (simp add: it2_def attachCallback_def new_parser_def newProtocol_def newCode_def radius_def cstr_def consts_defs Let_def)

lemmas eval_defs = check_code_def window_check_def slot_def has_def resetCode_def debug_callback_def
  found_code_def emit_def consts_defs Let_def


lemmas inv_defs = invariant_def ok_code_def seq_inv_def locked_by_def follower_def sink_ok_def
  eligible_def

lemma plain_eq: "plain = \<lparr>debugMode = False,
    protocol = [\<lparr>pid = 1, pname = ''p'', minCodeLen = 2, maxCodeLen = 100,
          tolerance = 25, sendRepeat = 3, plength = 0\<rparr>],
    code = [\<lparr>protId = 1, ctype = 1, cname = CHR ''s'', clength = 1,
          minTime = [750], maxTime = [1250], cnt = 0, valid = True\<rparr>,
       \<lparr>protId = 1, ctype = 2, cname = CHR ''a'', clength = 1,
          minTime = [375], maxTime = [625], cnt = 0, valid = True\<rparr>,
       \<lparr>protId = 1, ctype = 4, cname = CHR ''x'', clength = 1,
          minTime = [3750], maxTime = [6250], cnt = 0, valid = True\<rparr>],
    seq = [], seq_length = 0, seq_codelength = 0, seq_protocol = None,
    callbackFunc = True, sink = []\<rparr>"
  by (simp add: plain_def attachCallback_def new_parser_def newProtocol_def newCode_def radius_def cstr_def consts_defs Let_def)

lemma overlap_eq: "overlap = \<lparr>debugMode = False,
    protocol = [\<lparr>pid = 1, pname = ''p'', minCodeLen = 2, maxCodeLen = 10,
          tolerance = 25, sendRepeat = 3, plength = 0\<rparr>],
    code = [\<lparr>protId = 1, ctype = 1, cname = CHR ''s'', clength = 1,
          minTime = [750], maxTime = [1250], cnt = 0, valid = True\<rparr>,
       \<lparr>protId = 1, ctype = 2, cname = CHR ''a'', clength = 1,
          minTime = [375], maxTime = [625], cnt = 0, valid = True\<rparr>,
       \<lparr>protId = 1, ctype = 4, cname = CHR ''b'', clength = 1,
          minTime = [450], maxTime = [750], cnt = 0, valid = True\<rparr>],
    seq = [], seq_length = 0, seq_codelength = 0, seq_protocol = None,
    callbackFunc = True, sink = []\<rparr>"
  by (simp add: overlap_def attachCallback_def new_parser_def newProtocol_def newCode_def radius_def cstr_def consts_defs Let_def)

lemma wide_eq: "wide = \<lparr>debugMode = False,
    protocol =
      [\<lparr>pid = 1, pname = ''p'', minCodeLen = 1, maxCodeLen = 2,
          tolerance = 25, sendRepeat = 3, plength = 0\<rparr>],
    code =
      [\<lparr>protId = 1, ctype = 1, cname = CHR ''s'', clength = 1,
          minTime = [45000], maxTime = [9464], cnt = 0, valid = True\<rparr>],
    seq = [], seq_length = 0, seq_codelength = 0, seq_protocol = None,
    callbackFunc = False, sink = []\<rparr>"
  by (simp add: wide_def new_parser_def newProtocol_def newCode_def radius_def cstr_def consts_defs Let_def)

section \<open>Registry: protocol registration\<close>

lemma length_register_many:
  "length (protocol (register_many n s)) = length (protocol s) + n"
  by (induction n arbitrary: s) (simp_all add: newProtocol_def MAX_SEQUENCE_LENGTH_def Let_def)

text \<open>
  C9, as the code has it. A call with \<open>minLen > maxLen\<close> or \<open>maxLen \<ge> 120\<close> returns 0 and
  leaves the parser unchanged. Any other call appends exactly one protocol and returns
  the new table size as a \<^verbatim>\<open>uint8_t\<close>; that id is not zero as long as fewer than 255
  protocols were registered before.
\<close>

theorem newProtocol_result:
  "(minLen > maxLen \<or> unat maxLen \<ge> 120 \<longrightarrow> newProtocol s name minLen maxLen tol rep = (0, s)) \<and>
   (\<not> (minLen > maxLen \<or> unat maxLen \<ge> 120) \<longrightarrow>
      (\<exists>p. snd (newProtocol s name minLen maxLen tol rep) = s\<lparr>protocol := protocol s @ [p]\<rparr>) \<and>
      fst (newProtocol s name minLen maxLen tol rep) = of_nat (length (protocol s) + 1) \<and>
      (length (protocol s) < 255 \<longrightarrow> fst (newProtocol s name minLen maxLen tol rep) \<noteq> 0))"
proof -
  have nz: "length (protocol s) < 255 \<Longrightarrow> (of_nat (length (protocol s) + 1) :: 8 word) \<noteq> 0"
  proof
    assume a: "length (protocol s) < 255" and b: "(of_nat (length (protocol s) + 1) :: 8 word) = 0"
    have "unat (of_nat (length (protocol s) + 1) :: 8 word) = length (protocol s) + 1"
      using a by (simp add: unat_of_nat del: of_nat_add of_nat_Suc)
    with b show False by simp
  qed
  show ?thesis
    using nz by (auto simp: newProtocol_def MAX_SEQUENCE_LENGTH_def Let_def)
qed

theorem newProtocol_result_witness:
  "newProtocol new_parser ''it2'' 40 20 25 3 = (0, new_parser) \<and>
   fst (newProtocol new_parser ''it2'' 20 40 25 3) = 1 \<and>
   fst (newProtocol new_parser ''it2'' 20 40 25 3) \<noteq> 0"
  using newProtocol_result [of 40 20 new_parser "''it2''" 25 3]
    newProtocol_result [of 20 40 new_parser "''it2''" 25 3]
  by (simp add: new_parser_def)

text \<open>
  C9 as stated fails: the call after 255 successful registrations is accepted, appends
  the 256th protocol and returns the id 0.
\<close>

theorem newProtocol_id_counterexample:
  "\<not> ((1::8 word) > 2 \<or> unat (2::8 word) \<ge> 120) \<and>
   fst (newProtocol (register_many 255 new_parser) ''p'' 1 2 25 3) = 0 \<and>
   length (protocol (snd (newProtocol (register_many 255 new_parser) ''p'' 1 2 25 3))) = 256"
  by (simp add: newProtocol_def MAX_SEQUENCE_LENGTH_def Let_def length_register_many new_parser_def)

section \<open>Registry: the window of a slot\<close>

lemma uint_radius: "uint (radius p t) = (uint t * uint (tolerance p) div 100) mod 65536"
proof -
  let ?n = "unat t * unat (tolerance p) div 100"
  have "uint (of_nat ?n :: 16 word) = int (unat (of_nat ?n :: 16 word))"
    by simp
  also have "\<dots> = int (?n mod 65536)"
    by (simp only: unat_of_nat) simp
  also have "\<dots> = int ?n mod 65536"
    by (simp add: zmod_int)
  also have "int ?n = uint t * uint (tolerance p) div 100"
    by (simp add: zdiv_int)
  finally show ?thesis
    by (simp add: radius_def)
qed

text \<open>
  C8, as the code has it. For the \<open>k\<close>-th non-zero time \<open>T\<close> of a code registered under a
  protocol with tolerance \<open>p\<close>, the stored bounds are \<open>T - \<lfloor>T\<cdot>p/100\<rfloor>\<close> and
  \<open>T + \<lfloor>T\<cdot>p/100\<rfloor>\<close> reduced modulo \<open>2^16\<close>; they are the exact values when
  \<open>\<lfloor>T\<cdot>p/100\<rfloor> \<le> T\<close> and \<open>T + \<lfloor>T\<cdot>p/100\<rfloor> < 2^16\<close> respectively.
\<close>

theorem newCode_window:
  assumes "findProt_id (protocol s) i = Some p"
    and "k < length (filter (\<lambda>t. 0 < t) (take 8 ts))"
    and "T = filter (\<lambda>t. 0 < t) (take 8 ts) ! k"
    and "c = last (code (newCode s i ch ty ts))"
  shows "uint (minTime c ! k) = (uint T - uint T * uint (tolerance p) div 100) mod 65536 \<and>
   uint (maxTime c ! k) = (uint T + uint T * uint (tolerance p) div 100) mod 65536 \<and>
   (uint T * uint (tolerance p) div 100 \<le> uint T \<longrightarrow>
      uint (minTime c ! k) = uint T - uint T * uint (tolerance p) div 100) \<and>
   (uint T + uint T * uint (tolerance p) div 100 < 65536 \<longrightarrow>
      uint (maxTime c ! k) = uint T + uint T * uint (tolerance p) div 100)"
proof -
  let ?r = "uint T * uint (tolerance p) div 100"
  have lo: "minTime c ! k = T - radius p T" and hi: "maxTime c ! k = T + radius p T"
    using assms by (simp_all add: newCode_def MAX_CODELENGTH_def Let_def)
  have T: "uint T < 65536" "0 \<le> uint T" using uint_lt2p[of T] by simp_all
  have r: "0 \<le> ?r" by (simp add: pos_imp_zdiv_nonneg_iff)
  have 1: "uint (T - radius p T) = (uint T - ?r) mod 65536"
    by (simp add: uint_word_ariths uint_radius mod_simps)
  have 2: "uint (T + radius p T) = (uint T + ?r) mod 65536"
    by (simp add: uint_word_ariths uint_radius mod_simps)
  have 3: "?r \<le> uint T \<Longrightarrow> (uint T - ?r) mod 65536 = uint T - ?r"
    using T r by simp
  have 4: "uint T + ?r < 65536 \<Longrightarrow> (uint T + ?r) mod 65536 = uint T + ?r"
    using T r by simp
  show ?thesis using 1 2 3 4 lo hi by simp
qed

lemma one_code_prot: "findProt_id (protocol (snd (newProtocol new_parser ''p'' 1 2 25 3))) 1 = Some \<lparr>pid = 1, pname = ''p'', minCodeLen = 1, maxCodeLen = 2, tolerance = 25, sendRepeat = 3, plength = 0\<rparr>"
  by (simp add: newProtocol_def new_parser_def MAX_SEQUENCE_LENGTH_def PROTNAME_LEN_def cstr_def NUL_def Let_def)

theorem newCode_window_witness:
  "uint (minTime (last (code one_code)) ! 1) = 213 \<and> uint (maxTime (last (code one_code)) ! 1) = 353"
  using newCode_window [OF one_code_prot, of 1 "[60000, 0, 283]" 283 "last (code one_code)" "CHR ''a''" SP_DATA]
  by (simp add: one_code_def)

text \<open>
  C8 as stated fails for representable values: with \<open>T = 60000\<close> and \<open>p = 25\<close> the upper
  bound \<open>75000\<close> does not fit 16 bits and 9464 is stored.
\<close>

theorem newCode_window_counterexample:
  "uint (maxTime (last (code one_code)) ! 0) = 9464 \<and> uint (60000 :: CodeTime) + uint (60000 :: CodeTime) * uint (25 :: 8 word) div 100 = 75000"
  by (simp add: one_code_def newCode_def one_code_prot radius_def MAX_CODELENGTH_def Let_def)

section \<open>Matcher: acceptance of a duration by one code\<close>

lemma window_check_in_range:
  assumes "0 \<le> j" and "nat j < length (minTime c)" and "nat j < length (maxTime c)"
  shows "window_check s d c j =
     Inr (minTime c ! nat j \<le> d \<and> d \<le> maxTime c ! nat j,
          \<not> (minTime c ! nat j \<le> d \<and> d \<le> maxTime c ! nat j) \<and> j > 0 \<and> seq_length s = 0)"
  using assms by (simp add: window_check_def slot_def not_less not_le)

lemma check_code_eligible:
  assumes "eligible s c"
    and "0 \<le> sint (cnt c)" and "nat (sint (cnt c)) < length (minTime c)"
  shows "check_code s d c =
     (if has c SP_END \<and> sint (cnt c) = uint (clength c) - 1 \<and> d > minTime c ! nat (sint (cnt c))
      then Inr (True, False)
      else window_check s d c (sint (cnt c)))"
proof -
  have pos: "seq_length s \<noteq> 0 \<Longrightarrow> seq_length s > 0"
    by (simp add: word_greater_zero_iff)
  have sl: "slot (minTime c) (sint (cnt c)) = Inr (minTime c ! nat (sint (cnt c)))"
    using assms by (simp add: slot_def)
  have gate: "check_code s d c =
     (if has c SP_END \<and> sint (cnt c) = uint (clength c) - 1 then
        (case slot (minTime c) (sint (cnt c)) of
           Inl e \<Rightarrow> Inl e
         | Inr lo \<Rightarrow> if d > lo then Inr (True, False) else window_check s d c (sint (cnt c)))
      else window_check s d c (sint (cnt c)))"
    using assms(1) pos by (auto simp add: check_code_def eligible_def Let_def split: if_splits)
  show ?thesis
    unfolding gate sl by (cases "has c SP_END \<and> sint (cnt c) = uint (clength c) - 1") auto
qed

lemma check_code_refused:
  assumes "lock_ok s" and "\<not> eligible s c"
  shows "check_code s d c = Inr (False, False)"
proof (cases "seq_length s = 0")
  case True
  with assms(2) show ?thesis by (simp add: check_code_def eligible_def)
next
  case False
  then have pos: "seq_length s > 0" by (simp add: word_greater_zero_iff)
  from False assms(1) obtain p where p: "seq_protocol s = Some p"
    by (auto simp: lock_ok_def)
  from False assms(2) p have "protId c \<noteq> pid p \<or> \<not> has c SP_ANY"
    by (simp add: eligible_def)
  with pos p False show ?thesis by (auto simp: check_code_def Let_def)
qed

text \<open>
  C2. In a parser that has a locked protocol whenever its sequence is not empty, and for
  a code whose expected slot \<open>i\<close>, its \<^verbatim>\<open>cnt\<close>, is one of its stored slots, the
  condition chain accepts a duration only if the code passes the eligibility gate. For
  a code that passes it: if the code carries END and \<open>i\<close> is its last slot, the duration
  is accepted exactly when it is above \<open>minTime[i]\<close>, whatever \<open>maxTime[i]\<close> is, or equal
  to \<open>minTime[i]\<close> and inside the window; otherwise it is accepted exactly when
  \<open>minTime[i] \<le> d \<le> maxTime[i]\<close>, so \<open>minTime[i]\<close> itself is accepted when the window
  is not empty, and the value one below it is rejected.
\<close>

theorem slot_acceptance:
  assumes "lock_ok s"
    and "0 \<le> sint (cnt c)"
    and "i = nat (sint (cnt c))"
    and "i < length (minTime c)" and "i < length (maxTime c)"
  shows "\<exists>accepted retry. check_code s d c = Inr (accepted, retry) \<and>
     (accepted \<longrightarrow> eligible s c) \<and>
     (eligible s c \<longrightarrow>
        (if has c SP_END \<and> int i = uint (clength c) - 1
         then accepted \<longleftrightarrow> d > minTime c ! i \<or> (d = minTime c ! i \<and> d \<le> maxTime c ! i)
         else accepted \<longleftrightarrow> minTime c ! i \<le> d \<and> d \<le> maxTime c ! i)) \<and>
     (\<not> (has c SP_END \<and> int i = uint (clength c) - 1) \<longrightarrow>
        (eligible s c \<and> d = minTime c ! i \<and> minTime c ! i \<le> maxTime c ! i \<longrightarrow> accepted) \<and>
        (d + 1 = minTime c ! i \<and> d < d + 1 \<longrightarrow> \<not> accepted))"
proof (cases "eligible s c")
  case False
  with check_code_refused[OF assms(1) False, of d] show ?thesis by auto
next
  case el: True
  have i: "sint (cnt c) = int i" using assms by simp
  have rng: "nat (sint (cnt c)) < length (minTime c)"
    using assms(3,4) by simp
  have cc: "check_code s d c =
     (if has c SP_END \<and> int i = uint (clength c) - 1 \<and> d > minTime c ! i
      then Inr (True, False)
      else window_check s d c (int i))"
    using check_code_eligible[OF el assms(2) rng, of d] unfolding i by simp
  have wc: "window_check s d c (int i) =
     Inr (minTime c ! i \<le> d \<and> d \<le> maxTime c ! i,
          \<not> (minTime c ! i \<le> d \<and> d \<le> maxTime c ! i) \<and> int i > 0 \<and> seq_length s = 0)"
    using window_check_in_range[of "int i" c s d] assms(4,5) by simp
  show ?thesis
  proof (cases "has c SP_END \<and> int i = uint (clength c) - 1")
    case True
    show ?thesis
    proof (cases "d > minTime c ! i")
      case True
      with \<open>has c SP_END \<and> int i = uint (clength c) - 1\<close> have "check_code s d c = Inr (True, False)"
        unfolding cc by simp
      with \<open>has c SP_END \<and> int i = uint (clength c) - 1\<close> el True show ?thesis by auto
    next
      case False
      then have "check_code s d c = window_check s d c (int i)"
        unfolding cc by simp
      with False \<open>has c SP_END \<and> int i = uint (clength c) - 1\<close> el show ?thesis
        unfolding wc by auto
    qed
  next
    case False
    have below: "d + 1 = minTime c ! i \<Longrightarrow> d < d + 1 \<Longrightarrow> \<not> minTime c ! i \<le> d"
      using not_le by metis
    from False have "check_code s d c = window_check s d c (int i)"
      unfolding cc by auto
    with False below el show ?thesis
      unfolding wc by auto
  qed
qed

lemma it2_lock_ok:
  "lock_ok it2" "lock_ok it2_s" "lock_ok plain"
  by (simp_all add: lock_ok_def it2_eq it2_s_def plain_eq)

theorem slot_acceptance_witness:
  "check_code it2 213 (code it2 ! 0) = Inr (True, False) \<and>
   check_code it2 212 (code it2 ! 0) = Inr (False, False) \<and>
   check_code it2_s 60000 ((code it2 ! 3)\<lparr>cnt := 1\<rparr>) = Inr (True, False) \<and>
   check_code it2_s 1269 ((code it2 ! 3)\<lparr>cnt := 1\<rparr>) = Inr (False, False) \<and>
   check_code it2_s 283 (code it2 ! 0) = Inr (False, False)"
  using slot_acceptance [of it2 "code it2 ! 0" 0 213]
    slot_acceptance [of it2 "code it2 ! 0" 0 212]
    slot_acceptance [of it2_s "(code it2 ! 3)\<lparr>cnt := 1\<rparr>" 1 60000]
    slot_acceptance [of it2_s "(code it2 ! 3)\<lparr>cnt := 1\<rparr>" 1 1269]
    slot_acceptance [of it2_s "code it2 ! 0" 0 283]
    it2_lock_ok
  by (simp add: it2_eq it2_s_def has_def consts_defs check_code_def window_check_def slot_def)

text \<open>
  C2 as stated fails for a code that does not pass the gate, and for a window that
  \<^verbatim>\<open>newCode\<close> stored empty. With an empty sequence the end code \<^verbatim>\<open>x\<close> of the table
  \<open>plain\<close> refuses 60000 at its last slot, although 60000 is above the slot's
  \<open>minTime\<close>; the start code of the table \<open>wide\<close> refuses 45000, the \<open>minTime\<close> of its
  slot, because \<open>maxTime\<close> is 9464.
\<close>

theorem slot_acceptance_counterexample:
  "valid (code plain ! 2) \<and> has (code plain ! 2) SP_END \<and>
   sint (cnt (code plain ! 2)) = uint (clength (code plain ! 2)) - 1 \<and>
   60000 > minTime (code plain ! 2) ! 0 \<and>
   check_code plain 60000 (code plain ! 2) = Inr (False, False) \<and>
   valid (code wide ! 0) \<and> \<not> has (code wide ! 0) SP_END \<and> cnt (code wide ! 0) = 0 \<and>
   minTime (code wide ! 0) ! 0 = 45000 \<and>
   check_code wide 45000 (code wide ! 0) = Inr (False, False)"
  by (simp add: plain_eq wide_eq has_def consts_defs check_code_def window_check_def slot_def)

section \<open>Matcher: the loop and \<^verbatim>\<open>parse\<close> in closed form\<close>

lemma scan_codes_none:
  assumes "\<forall>c \<in> set cs. \<not> faults s d c \<and> \<not> completes s d c"
  shows "scan_codes s d done cs m r =
     Inr \<lparr>sc_state = s\<lparr>code := done @ map (advance s d) cs\<rparr>, foundCode = None,
          match = (m \<or> (\<exists>c \<in> set cs. accepts s d c)),
          retryCandidate = (r \<or> (\<exists>c \<in> set cs. flags_retry s d c))\<rparr>"
  using assms
proof (induction cs arbitrary: "done" m r)
  case Nil
  then show ?case by simp
next
  case (Cons c cs)
  have rest: "\<forall>c \<in> set cs. \<not> faults s d c \<and> \<not> completes s d c"
    using Cons.prems by simp
  show ?case
  proof (cases "valid c")
    case False
    then show ?thesis
      using Cons.IH[OF rest] by (simp add: advance_def accepts_def flags_retry_def)
  next
    case True
    with Cons.prems obtain v rt where cc: "check_code s d c = Inr (v, rt)"
      by (cases "check_code s d c") (auto simp: faults_def)
    show ?thesis
    proof (cases v)
      case False
      with True cc show ?thesis
        using Cons.IH[OF rest] by (simp add: advance_def accepts_def flags_retry_def)
    next
      case v: True
      with True cc Cons.prems have nc: "sint (cnt c + 1) \<noteq> uint (clength c)"
        by (simp add: completes_def accepts_def)
      have rt: "\<not> rt"
        using cc v by (auto simp: check_code_def window_check_def Let_def split: if_splits sum.splits)
      from True cc v nc rt show ?thesis
        using Cons.IH[OF rest] by (simp add: advance_def accepts_def flags_retry_def)
    qed
  qed
qed

lemma scan_codes_found:
  assumes "\<forall>c \<in> set pre. \<not> faults s d c \<and> \<not> completes s d c"
    and "completes s d c"
    and "unat (seq_length s) + 1 < MAX_SEQUENCE_LENGTH"
  shows "scan_codes s d done (pre @ c # post) m r =
     Inr \<lparr>sc_state = resetCode False
            (s\<lparr>code := done @ map (advance s d) pre @ advance s d c # post,
               seq := seq s @ [cname c], seq_length := seq_length s + 1\<rparr>),
          foundCode = Some (advance s d c), match = True,
          retryCandidate = (r \<or> (\<exists>c \<in> set pre. flags_retry s d c))\<rparr>"
  using assms(1)
proof (induction pre arbitrary: "done" m r)
  case Nil
  from assms(2) obtain rt where v: "valid c" and cc: "check_code s d c = Inr (True, rt)"
    and fin: "sint (cnt c + 1) = uint (clength c)"
    by (cases "check_code s d c") (auto simp: completes_def accepts_def)
  have rt: "\<not> rt"
    using cc by (auto simp: check_code_def window_check_def Let_def split: if_splits sum.splits)
  have adv: "advance s d c = c\<lparr>valid := True, cnt := cnt c + 1\<rparr>"
    using v cc by (simp add: advance_def accepts_def)
  show ?case
    using v cc fin rt assms(3) by (simp add: adv Let_def)
next
  case (Cons a pre)
  have rest: "\<forall>c \<in> set pre. \<not> faults s d c \<and> \<not> completes s d c"
    using Cons.prems by simp
  show ?case
  proof (cases "valid a")
    case False
    then show ?thesis
      using Cons.IH[OF rest] by (simp add: advance_def accepts_def flags_retry_def)
  next
    case True
    with Cons.prems obtain v rt where cc: "check_code s d a = Inr (v, rt)"
      by (cases "check_code s d a") (auto simp: faults_def)
    show ?thesis
    proof (cases v)
      case False
      with True cc show ?thesis
        using Cons.IH[OF rest] by (simp add: advance_def accepts_def flags_retry_def)
    next
      case v: True
      with True cc Cons.prems have nc: "sint (cnt a + 1) \<noteq> uint (clength a)"
        by (simp add: completes_def accepts_def)
      have rt: "\<not> rt"
        using cc v by (auto simp: check_code_def window_check_def Let_def split: if_splits sum.splits)
      from True cc v nc rt show ?thesis
        using Cons.IH[OF rest] by (simp add: advance_def accepts_def flags_retry_def)
    qed
  qed
qed


lemma sint_small:
  fixes w :: "8 word"
  assumes "unat w < 128"
  shows "sint w = uint w"
proof -
  have "sint w = signed_take_bit 7 (uint w)"
    by (simp add: sint_uint)
  also have "\<dots> = uint w"
  proof (rule signed_take_bit_int_eq_self)
    have "(- (2 ^ 7) :: int) \<le> 0" by simp
    also have "0 \<le> uint w" by simp
    finally show "- (2 ^ 7) \<le> uint w" .
    have "int (unat w) < 128" using assms by linarith
    then show "uint w < 2 ^ 7" by simp
  qed
  finally show ?thesis by simp
qed

lemma ok_code_sint:
  assumes "ok_code ps c"
  shows "sint (cnt c) = uint (cnt c)" and "unat (cnt c) < unat (clength c)"
    and "unat (clength c) \<le> 8" and "0 < unat (clength c)"
proof -
  from assms have a: "cnt c < clength c" "clength c \<le> 8" "0 < clength c"
    by (simp_all add: ok_code_def)
  then show 1: "unat (cnt c) < unat (clength c)" and 2: "unat (clength c) \<le> 8"
    and "0 < unat (clength c)"
    by (simp_all add: word_less_nat_alt word_le_nat_alt)
  then have "unat (cnt c) < 128" by simp
  then show "sint (cnt c) = uint (cnt c)"
    by (rule sint_small)
qed

lemma ok_code_next:
  assumes "ok_code ps c"
  shows "sint (cnt c + 1) = uint (clength c) \<longleftrightarrow> cnt c + 1 = clength c"
    and "cnt c + 1 \<noteq> clength c \<Longrightarrow> cnt c + 1 < clength c"
    and "unat (cnt c + 1) = unat (cnt c) + 1"
proof -
  note w = ok_code_sint[OF assms]
  show u: "unat (cnt c + 1) = unat (cnt c) + 1"
    using w by (simp add: unat_word_ariths)
  then have "unat (cnt c + 1) < 128" using w by simp
  then have s: "sint (cnt c + 1) = uint (cnt c + 1)" by (rule sint_small)
  show "sint (cnt c + 1) = uint (clength c) \<longleftrightarrow> cnt c + 1 = clength c"
    unfolding s by (simp add: word_uint_eq_iff)
  show "cnt c + 1 \<noteq> clength c \<Longrightarrow> cnt c + 1 < clength c"
    using w u by (simp add: word_less_nat_alt word_unat_eq_iff)
qed

lemma check_code_idle:
  "seq_length s = 0 \<Longrightarrow>
   check_code s d c = (if has c SP_START then slot_check s d c else Inr (False, False))"
  by (simp add: check_code_def slot_check_def Let_def)

lemma check_code_matching:
  assumes "seq_length s \<noteq> 0"
  shows "check_code s d c =
     (case seq_protocol s of
        None \<Rightarrow> Inl NullProtocol
      | Some p \<Rightarrow> if protId c = pid p \<and> has c SP_ANY then slot_check s d c else Inr (False, False))"
proof -
  from assms have pos: "seq_length s > 0"
    by (simp add: word_greater_zero_iff)
  show ?thesis
  proof (cases "seq_protocol s")
    case None
    with pos assms show ?thesis by (simp add: check_code_def Let_def)
  next
    case (Some p)
    with pos assms show ?thesis
      by (cases "protId c = pid p"; cases "has c SP_ANY")
         (simp_all add: check_code_def slot_check_def Let_def)
  qed
qed

lemma slot_check_ok:
  assumes "ok_code ps c"
  shows "slot_check s d c =
     (let lo = minTime c ! unat (cnt c); hi = maxTime c ! unat (cnt c);
          ok = (has c SP_END \<and> cnt c + 1 = clength c \<and> d > lo) \<or> (lo \<le> d \<and> d \<le> hi)
      in Inr (ok, \<not> ok \<and> cnt c \<noteq> 0 \<and> seq_length s = 0))"
proof -
  note w = ok_code_sint[OF assms]
  from assms have l: "length (minTime c) = unat (clength c)" "length (maxTime c) = unat (clength c)"
    by (simp_all add: ok_code_def)
  have sl: "slot (minTime c) (sint (cnt c)) = Inr (minTime c ! unat (cnt c))"
    "slot (maxTime c) (sint (cnt c)) = Inr (maxTime c ! unat (cnt c))"
    using w(2) l unfolding w(1) by (simp_all add: slot_def)
  have pos: "0 < sint (cnt c) \<longleftrightarrow> cnt c \<noteq> 0"
    unfolding w(1) by (simp add: word_less_def word_greater_zero_iff[symmetric])
  have wc: "window_check s d c (sint (cnt c)) =
    Inr (minTime c ! unat (cnt c) \<le> d \<and> d \<le> maxTime c ! unat (cnt c),
         \<not> (minTime c ! unat (cnt c) \<le> d \<and> d \<le> maxTime c ! unat (cnt c)) \<and> cnt c \<noteq> 0 \<and> seq_length s = 0)"
    unfolding window_check_def sl pos by (auto simp add: not_less not_le)
  have "uint (cnt c + 1) = uint (cnt c) + 1"
    using ok_code_next(3)[OF assms] by (metis of_nat_Suc Suc_eq_plus1 uint_nat add.commute)
  moreover have "sint (cnt c + 1) = uint (cnt c + 1)"
    using w(2,3) ok_code_next(3)[OF assms] by (intro sint_small) simp
  ultimately have "sint (cnt c) = uint (clength c) - 1 \<longleftrightarrow> sint (cnt c + 1) = uint (clength c)"
    unfolding w(1) by auto
  then have last: "sint (cnt c) = uint (clength c) - 1 \<longleftrightarrow> cnt c + 1 = clength c"
    using ok_code_next(1)[OF assms] by simp
  show ?thesis
    unfolding slot_check_def sl wc last Let_def
    by (cases "has c SP_END \<and> cnt c + 1 = clength c"; cases "d > minTime c ! unat (cnt c)") auto
qed


lemma check_code_ok:
  assumes "ok_code ps c" and "lock_ok s"
  shows "check_code s d c =
     Inr (eligible s c \<and> fits c d,
          eligible s c \<and> \<not> fits c d \<and> cnt c \<noteq> 0 \<and> seq_length s = 0)"
proof (cases "seq_length s = 0")
  case True
  then show ?thesis
    by (simp add: check_code_idle slot_check_ok[OF assms(1)] eligible_def fits_def Let_def)
next
  case False
  with assms(2) obtain p where p: "seq_protocol s = Some p"
    by (auto simp: lock_ok_def)
  from False show ?thesis
    by (cases "protId c = pid p \<and> has c SP_ANY")
       (auto simp add: check_code_matching p slot_check_ok[OF assms(1)] eligible_def fits_def Let_def)
qed

lemma ok_no_fault:
  assumes "ok_code ps c" and "lock_ok s"
  shows "\<not> faults s d c"
  by (simp add: faults_def check_code_ok[OF assms])

lemma accepts_ok:
  assumes "ok_code ps c" and "lock_ok s"
  shows "accepts s d c \<longleftrightarrow> valid c \<and> eligible s c \<and> fits c d"
  by (simp add: accepts_def check_code_ok[OF assms])

lemma flags_retry_ok:
  assumes "ok_code ps c" and "lock_ok s"
  shows "flags_retry s d c \<longleftrightarrow>
     valid c \<and> eligible s c \<and> \<not> fits c d \<and> cnt c \<noteq> 0 \<and> seq_length s = 0"
  by (simp add: flags_retry_def check_code_ok[OF assms])

lemma completes_ok:
  assumes "ok_code ps c"
  shows "completes s d c \<longleftrightarrow> accepts s d c \<and> cnt c + 1 = clength c"
  by (simp add: completes_def ok_code_next(1)[OF assms])

lemma accepts_eligible:
  assumes "accepts s d c"
  shows "eligible s c"
proof (cases "seq_length s = 0")
  case True
  with assms show ?thesis
    by (auto simp: accepts_def check_code_idle eligible_def split: if_splits)
next
  case False
  with assms show ?thesis
    by (auto simp: accepts_def check_code_matching eligible_def split: if_splits option.splits)
qed

lemma cdef_advance [simp]: "cdef (advance s d c) = cdef c"
  by (simp add: advance_def cdef_def)

lemma cdef_comp_advance [simp]: "cdef \<circ> advance s d = cdef"
  by (rule ext) simp

lemma has_advance [simp]: "has (advance s d c) f = has c f"
  by (simp add: advance_def has_def)

lemma advance_fields [simp]:
  "protId (advance s d c) = protId c" "cname (advance s d c) = cname c"
  "clength (advance s d c) = clength c" "minTime (advance s d c) = minTime c"
  "maxTime (advance s d c) = maxTime c" "ctype (advance s d c) = ctype c"
  by (simp_all add: advance_def)

lemma ok_advance:
  assumes "ok_code ps c" and "\<not> completes s d c"
  shows "ok_code ps (advance s d c)"
proof (cases "accepts s d c")
  case True
  with assms(2) have "cnt c + 1 \<noteq> clength c"
    by (simp add: completes_ok[OF assms(1)])
  then have "cnt c + 1 < clength c"
    by (rule ok_code_next(2)[OF assms(1)])
  with assms(1) True show ?thesis
    by (simp add: ok_code_def advance_def accepts_def)
next
  case False
  with assms(1) show ?thesis
    by (simp add: ok_code_def advance_def)
qed

lemma ok_cdef: "ok_code ps c \<Longrightarrow> ok_code ps (c\<lparr>cnt := 0, valid := True\<rparr>)"
  by (simp add: ok_code_def)


lemma find_split:
  "find P xs = Some c \<Longrightarrow> \<exists>pre post. xs = pre @ c # post \<and> (\<forall>x \<in> set pre. \<not> P x) \<and> P c"
proof (induction xs)
  case Nil
  then show ?case by simp
next
  case (Cons x xs)
  show ?case
  proof (cases "P x")
    case True
    with Cons.prems have "x = c" by simp
    with True have "x # xs = [] @ c # xs \<and> (\<forall>x \<in> set []. \<not> P x) \<and> P c" by simp
    then show ?thesis by blast
  next
    case False
    with Cons obtain pre post where "xs = pre @ c # post" "\<forall>x \<in> set pre. \<not> P x" "P c"
      by auto
    with False have "x # xs = (x # pre) @ c # post \<and> (\<forall>y \<in> set (x # pre). \<not> P y) \<and> P c"
      by simp
    then show ?thesis by blast
  qed
qed

lemma resetCode_False_eq:
  "resetCode False s = s\<lparr>code := map cdef (code s)\<rparr>"
  by (simp add: resetCode_def cdef_def Let_def)

lemma resetCode_True_eq:
  "resetCode True s = s\<lparr>code := map cdef (code s), seq_protocol := None, seq_length := 0,
     seq_codelength := 0, seq := []\<rparr>"
  by (simp add: resetCode_def cdef_def Let_def)

lemma found_code_advance: "found_code (advance s d c) st = found_code c st"
  by (simp add: found_code_def cong: option.case_cong if_cong)

lemma parse_ok:
  assumes "protocol s \<noteq> []" and "\<forall>c \<in> set (code s). ok_code (protocol s) c"
    and "lock_ok s" and "unat (seq_length s) + 1 < MAX_SEQUENCE_LENGTH"
  shows "parse s d =
     (case find (completes s d) (code s) of
        Some c \<Rightarrow>
          found_code c (s\<lparr>code := map cdef (code s), seq := seq s @ [cname c],
            seq_length := seq_length s + 1, seq_codelength := seq_codelength s + 1\<rparr>)
      | None \<Rightarrow>
          if \<exists>c \<in> set (code s). accepts s d c
          then Inr (s\<lparr>code := map (advance s d) (code s), seq_codelength := seq_codelength s + 1\<rparr>)
          else (case debug_callback (s\<lparr>code := map (advance s d) (code s)\<rparr>) of
                  Inl e \<Rightarrow> Inl e
                | Inr s1 \<Rightarrow>
                    if \<exists>c \<in> set (code s). flags_retry s d c then parse (resetCode True s1) d
                    else Inr (resetCode True s1)))"
proof (cases "find (completes s d) (code s)")
  case None
  then have nc: "\<forall>c \<in> set (code s). \<not> faults s d c \<and> \<not> completes s d c"
    using assms(2,3) by (auto simp: find_None_iff ok_no_fault)
  show ?thesis
    by (subst parse.simps) (simp add: None assms(1) scan_codes_none[OF nc] cong: sum.case_cong)
next
  case (Some c)
  then obtain pre post where sp: "code s = pre @ c # post"
    and pre: "\<forall>x \<in> set pre. \<not> completes s d x" and c: "completes s d c"
    using find_split[of "completes s d" "code s" c] by blast
  have "\<forall>x \<in> set pre. ok_code (protocol s) x"
    using assms(2) sp by simp
  then have nf: "\<forall>x \<in> set pre. \<not> faults s d x \<and> \<not> completes s d x"
    using pre ok_no_fault[OF _ assms(3)] by blast
  have st: "resetCode False
        (s\<lparr>code := [] @ map (advance s d) pre @ advance s d c # post,
           seq := seq s @ [cname c], seq_length := seq_length s + 1\<rparr>)
        \<lparr>seq_codelength := seq_codelength s + 1\<rparr> =
      s\<lparr>code := map cdef (code s), seq := seq s @ [cname c],
        seq_length := seq_length s + 1, seq_codelength := seq_codelength s + 1\<rparr>"
    using sp by (cases s) (simp add: resetCode_False_eq)
  have "parse s d = found_code (advance s d c)
      (resetCode False
        (s\<lparr>code := [] @ map (advance s d) pre @ advance s d c # post,
           seq := seq s @ [cname c], seq_length := seq_length s + 1\<rparr>)
        \<lparr>seq_codelength := seq_codelength s + 1\<rparr>)"
    apply (subst parse.simps)
    apply (simp only: sp scan_codes_found[OF nf c assms(4)])
    apply (simp add: assms(1) resetCode_False_eq)
    done
  then show ?thesis
    unfolding st by (simp add: Some found_code_advance)
qed

section \<open>Matcher: the invariant\<close>

lemma inv_seq_empty: "invariant s \<Longrightarrow> seq_length s = 0 \<longleftrightarrow> seq s = []"
  by (auto simp: invariant_def unat_eq_zero)

lemma inv_lock_ok: "invariant s \<Longrightarrow> lock_ok s"
  unfolding lock_ok_def
  by (auto simp: inv_seq_empty invariant_def seq_inv_def split: list.splits option.splits)

lemma inv_bound: "invariant s \<Longrightarrow> unat (seq_length s) + 1 < MAX_SEQUENCE_LENGTH"
  by (simp add: invariant_def MAX_SEQUENCE_LENGTH_def)

lemma inv_len_suc:
  assumes "invariant s"
  shows "unat (seq_length s + 1) = length (seq s) + 1"
proof -
  from assms have "unat (seq_length s) < 118" and l: "length (seq s) = unat (seq_length s)"
    by (simp_all add: invariant_def MAX_SEQUENCE_LENGTH_def)
  then have "unat (seq_length s) + unat (1 :: 8 word) < 2 ^ LENGTH(8)" by simp
  then have "unat (seq_length s + 1) = unat (seq_length s) + unat (1 :: 8 word)"
    by (simp only: unat_add_lem)
  with l show ?thesis by simp
qed

lemma inv_len_word:
  assumes "invariant s"
  shows "seq_length s + 1 = of_nat (length (seq s) + 1)"
proof -
  have "seq_length s + 1 = of_nat (unat (seq_length s + 1))" by simp
  then show ?thesis unfolding inv_len_suc[OF assms] .
qed

lemma debug_callback_ok:
  assumes "sink_ok s"
  shows "debug_callback s =
     Inr (if debugMode s \<and> seq_length s > 10 then emit (take 15 (diagnostic s)) s else s)"
  using assms by (simp add: debug_callback_def sink_ok_def diagnostic_def)

lemma find_completes_Some:
  assumes "find (completes s d) (code s) = Some c"
  shows "c \<in> set (code s)" and "completes s d c" and "accepts s d c" and "eligible s c"
proof -
  from assms show "c \<in> set (code s)" and c: "completes s d c"
    by (auto simp: find_Some_iff)
  then show "accepts s d c" by (simp add: completes_def)
  then show "eligible s c" by (rule accepts_eligible)
qed


lemma cdef_idem [simp]: "cdef (cdef c) = cdef c"
  by (simp add: cdef_def)

lemma cdef_comp_idem [simp]: "cdef \<circ> cdef = cdef"
  by (rule ext) simp

lemma parse_advance:
  assumes "invariant s" and "protocol s \<noteq> []" and "find (completes s d) (code s) = None"
    and "\<exists>c \<in> set (code s). accepts s d c"
  shows "parse s d =
     Inr (s\<lparr>code := map (advance s d) (code s), seq_codelength := seq_codelength s + 1\<rparr>)"
proof -
  from assms(1) have ok: "\<forall>c \<in> set (code s). ok_code (protocol s) c"
    by (simp add: invariant_def)
  show ?thesis
    using assms(3,4)
    by (simp add: parse_ok[OF assms(2) ok inv_lock_ok[OF assms(1)] inv_bound[OF assms(1)]])
qed

lemma reset_after_scan:
  "resetCode True (s\<lparr>code := map (advance s d) (code s)\<rparr>) = resetCode True s"
  "resetCode True (emit str (s\<lparr>code := map (advance s d) (code s)\<rparr>)) = resetCode True (emit str s)"
  by (simp_all add: resetCode_True_eq emit_def)

lemma reset_after_complete:
  "resetCode True (s\<lparr>code := map cdef (code s), seq := a, seq_length := b, seq_codelength := n\<rparr>)
     = resetCode True s"
  "resetCode True (emit str (s\<lparr>code := map cdef (code s), seq := a, seq_length := b,
     seq_codelength := n\<rparr>)) = resetCode True (emit str s)"
  by (simp_all add: resetCode_True_eq emit_def)

lemma parse_abort:
  assumes "invariant s" and "sink_ok s" and "protocol s \<noteq> []" and "no_match s d"
  shows "parse s d =
     (if \<exists>c \<in> set (code s). flags_retry s d c then parse (resetCode True s) d
      else Inr (resetCode True
        (if debugMode s \<and> seq_length s > 10 then emit (take 15 (diagnostic s)) s else s)))"
proof -
  from assms(1) have ok: "\<forall>c \<in> set (code s). ok_code (protocol s) c"
    by (simp add: invariant_def)
  note lk = inv_lock_ok[OF assms(1)]
  have none: "find (completes s d) (code s) = None"
    using assms(4) by (auto simp: find_None_iff no_match_def completes_def)
  have na: "\<not> (\<exists>c \<in> set (code s). accepts s d c)"
    using assms(4) by (simp add: no_match_def)
  let ?s1 = "s\<lparr>code := map (advance s d) (code s)\<rparr>"
  have so: "sink_ok ?s1" using assms(2) by (simp add: sink_ok_def)
  have dg: "diagnostic ?s1 = diagnostic s" by (simp add: diagnostic_def)
  have p: "parse s d =
     (if \<exists>c \<in> set (code s). flags_retry s d c
      then parse (resetCode True
         (if debugMode s \<and> seq_length s > 10 then emit (take 15 (diagnostic s)) ?s1 else ?s1)) d
      else Inr (resetCode True
         (if debugMode s \<and> seq_length s > 10 then emit (take 15 (diagnostic s)) ?s1 else ?s1)))"
    using none na
    by (simp add: parse_ok[OF assms(3) ok lk inv_bound[OF assms(1)]] debug_callback_ok[OF so] dg)
  show ?thesis
  proof (cases "\<exists>c \<in> set (code s). flags_retry s d c")
    case True
    then obtain c where "c \<in> set (code s)" "flags_retry s d c" by blast
    with ok lk have "seq_length s = 0"
      using flags_retry_ok[of "protocol s" c s d] by simp
    with True show ?thesis
      unfolding p by (simp add: reset_after_scan)
  next
    case False
    then show ?thesis
      unfolding p by (simp add: reset_after_scan)
  qed
qed

lemma parse_complete:
  assumes "invariant s" and "protocol s \<noteq> []" and "find (completes s d) (code s) = Some c"
  shows "parse s d =
     found_code c (s\<lparr>code := map cdef (code s), seq := seq s @ [cname c],
       seq_length := seq_length s + 1, seq_codelength := seq_codelength s + 1\<rparr>)"
proof -
  from assms(1) have ok: "\<forall>c \<in> set (code s). ok_code (protocol s) c"
    by (simp add: invariant_def)
  show ?thesis
    using assms(3)
    by (simp add: parse_ok[OF assms(2) ok inv_lock_ok[OF assms(1)] inv_bound[OF assms(1)]])
qed

lemma parse_first:
  assumes "invariant s" and "protocol s \<noteq> []" and "find (completes s d) (code s) = Some c"
    and "seq s = []"
  shows "parse s d =
     Inr (s\<lparr>code := map cdef (code s), seq := [cname c], seq_length := 1,
       seq_codelength := seq_codelength s + 1,
       seq_protocol := findProt_id (protocol s) (protId c)\<rparr>)"
proof -
  from assms(1,4) have z: "seq_length s = 0" by (simp add: inv_seq_empty)
  from find_completes_Some(4)[OF assms(3)] z have "has c SP_START"
    by (simp add: eligible_def)
  then show ?thesis
    unfolding parse_complete[OF assms(1-3)]
    by (simp add: found_code_def z assms(4))
qed

lemma parse_later:
  assumes "invariant s" and "protocol s \<noteq> []" and "find (completes s d) (code s) = Some c"
    and "seq s \<noteq> []" and "seq_protocol s = Some p"
  shows "parse s d =
     (if has c SP_END \<or> seq_length s + 1 = maxCodeLen p then
        Inr (resetCode True
          (if callbackFunc s \<and> minCodeLen p \<le> seq_length s + 1
           then emit (take 63 (pname p @ '' '' @ cstr (seq s @ [cname c]))) s else s))
      else if length (seq s) = 117 then Inr (resetCode True s)
      else Inr (s\<lparr>code := map cdef (code s), seq := seq s @ [cname c],
             seq_length := seq_length s + 1, seq_codelength := seq_codelength s + 1\<rparr>))"
proof -
  let ?st = "s\<lparr>code := map cdef (code s), seq := seq s @ [cname c],
       seq_length := seq_length s + 1, seq_codelength := seq_codelength s + 1\<rparr>"
  from assms(1,4) have nz: "seq_length s \<noteq> 0" by (simp add: inv_seq_empty)
  have l: "unat (seq_length s + 1) = MAX_SEQUENCE_LENGTH - 2 \<longleftrightarrow> length (seq s) = 117"
    by (simp add: inv_len_suc[OF assms(1)] MAX_SEQUENCE_LENGTH_def)
  show ?thesis
    unfolding parse_complete[OF assms(1-3)]
    by (simp add: found_code_def nz assms(5) reset_after_complete l)
qed


lemma has_cdef [simp]: "has (cdef c) f = has c f"
  by (simp add: has_def cdef_def)

lemma cdef_fields [simp]:
  "protId (cdef c) = protId c" "cname (cdef c) = cname c" "clength (cdef c) = clength c"
  "minTime (cdef c) = minTime c" "maxTime (cdef c) = maxTime c" "cnt (cdef c) = 0"
  "valid (cdef c)"
  by (simp_all add: cdef_def)

lemma locked_by_map [simp]:
  "locked_by (map cdef cs) ps p ch = locked_by cs ps p ch"
  "locked_by (map (advance s d) cs) ps p ch = locked_by cs ps p ch"
  by (simp_all add: locked_by_def)

lemma follower_map [simp]:
  "follower (map cdef cs) p n ch = follower cs p n ch"
  "follower (map (advance s d) cs) p n ch = follower cs p n ch"
  by (simp_all add: follower_def)

lemma followers_map [simp]:
  "followers (map cdef cs) p n str = followers cs p n str"
  "followers (map (advance s d) cs) p n str = followers cs p n str"
  by (induction str arbitrary: n) simp_all

lemma followers_append:
  "followers cs p n (xs @ [ch]) = (followers cs p n xs \<and> follower cs p (n + length xs) ch)"
  by (induction xs arbitrary: n) auto

lemma ok_code_cdef: "ok_code ps c \<Longrightarrow> ok_code ps (cdef c)"
  by (simp add: ok_code_def cdef_def)

lemma inv_advance:
  assumes "invariant s" and "find (completes s d) (code s) = None"
  shows "invariant (s\<lparr>code := map (advance s d) (code s), seq_codelength := n\<rparr>)"
proof -
  from assms(2) have "\<forall>c \<in> set (code s). \<not> completes s d c"
    by (simp add: find_None_iff)
  with assms(1) have "\<forall>c \<in> set (code s). ok_code (protocol s) (advance s d c)"
    by (simp add: invariant_def ok_advance)
  with assms(1) show ?thesis
    by (simp add: invariant_def seq_inv_def split: list.splits option.splits)
qed

lemma inv_reset:
  assumes "\<forall>c \<in> set (code s). ok_code (protocol s) c"
  shows "invariant (resetCode True s)" and "invariant (resetCode True (emit str s))"
  using assms
  by (simp_all add: invariant_def seq_inv_def resetCode_True_eq emit_def ok_code_cdef
      MAX_SEQUENCE_LENGTH_def)

lemma inv_first:
  assumes "invariant s" and "c \<in> set (code s)" and "has c SP_START"
  shows "invariant (s\<lparr>code := map cdef (code s), seq := [cname c], seq_length := 1,
       seq_codelength := n, seq_protocol := findProt_id (protocol s) (protId c)\<rparr>)"
proof -
  from assms(1,2) have "ok_code (protocol s) c" by (simp add: invariant_def)
  then obtain p where p: "findProt_id (protocol s) (protId c) = Some p"
    by (auto simp: ok_code_def)
  have "locked_by (code s) (protocol s) p (cname c)"
    using assms(2,3) p by (auto simp: locked_by_def)
  with assms(1) p show ?thesis
    by (simp add: invariant_def seq_inv_def ok_code_cdef MAX_SEQUENCE_LENGTH_def)
qed

lemma inv_next:
  assumes "invariant s" and "c \<in> set (code s)" and "eligible s c" and "seq s \<noteq> []"
    and "seq_protocol s = Some p" and "\<not> has c SP_END"
    and "seq_length s + 1 \<noteq> maxCodeLen p" and "length (seq s) \<noteq> 117"
  shows "invariant (s\<lparr>code := map cdef (code s), seq := seq s @ [cname c],
       seq_length := seq_length s + 1, seq_codelength := n\<rparr>)"
proof -
  from assms(1,4) have nz: "seq_length s \<noteq> 0" by (simp add: inv_seq_empty)
  from assms(4) obtain ch rest where sq: "seq s = ch # rest" by (cases "seq s") auto
  from assms(3,5) nz have el: "protId c = pid p" "has c SP_ANY"
    by (simp_all add: eligible_def)
  have "of_nat (2 + length rest) \<noteq> maxCodeLen p"
    using assms(7) unfolding inv_len_word[OF assms(1)] sq by simp
  with el assms(2,6) have "follower (code s) p (2 + length rest) (cname c)"
    by (auto simp: follower_def)
  moreover from assms(1,8) have "length (seq s) + 1 < MAX_SEQUENCE_LENGTH - 2"
    by (simp add: invariant_def MAX_SEQUENCE_LENGTH_def)
  ultimately show ?thesis
    using assms(1,5) sq inv_len_suc[OF assms(1)]
    by (simp add: invariant_def seq_inv_def ok_code_cdef followers_append)
qed



lemma same_setup_reset [simp]:
  "same_setup s (resetCode True s)" "same_setup s (resetCode True (emit str s))"
  by (simp_all add: same_setup_def resetCode_True_eq emit_def)

lemma seq_reset [simp]:
  "seq (resetCode True s) = []" "seq_length (resetCode True s) = 0"
  "seq_protocol (resetCode True s) = None" "seq_codelength (resetCode True s) = 0"
  "protocol (resetCode b s) = protocol s" "debugMode (resetCode b s) = debugMode s"
  "callbackFunc (resetCode b s) = callbackFunc s" "sink (resetCode b s) = sink s"
  "code (resetCode b s) = map cdef (code s)"
  by (simp_all add: resetCode_def cdef_def Let_def)

lemma same_setup_trans: "same_setup a b \<Longrightarrow> same_setup b c \<Longrightarrow> same_setup a c"
  by (simp add: same_setup_def)


lemma parse_step_noretry:
  assumes "invariant s" and "sink_ok s"
    and "\<not> (no_match s d \<and> (\<exists>c \<in> set (code s). flags_retry s d c))"
  shows "\<exists>s'. parse s d = Inr s' \<and> invariant s' \<and> same_setup s s' \<and>
     (seq s \<noteq> [] \<and> seq s' \<noteq> [] \<longrightarrow> seq_protocol s' = seq_protocol s \<and> hd (seq s') = hd (seq s)) \<and>
     (seq s = [] \<longrightarrow> sink s' = sink s)"
proof (cases "protocol s = []")
  case True
  then have "parse s d = Inr s" by (subst parse.simps) simp
  with assms(1) show ?thesis by (simp add: same_setup_def)
next
  case ne: False
  from assms(1) have ok: "\<forall>c \<in> set (code s). ok_code (protocol s) c"
    by (simp add: invariant_def)
  show ?thesis
  proof (cases "find (completes s d) (code s)")
    case None
    show ?thesis
    proof (cases "\<exists>c \<in> set (code s). accepts s d c")
      case True
      show ?thesis
        unfolding parse_advance[OF assms(1) ne None True]
        using inv_advance[OF assms(1) None] by (simp add: same_setup_def)
    next
      case False
      then have nm: "no_match s d" by (simp add: no_match_def)
      have "seq s = [] \<Longrightarrow> \<not> seq_length s > 10"
        using assms(1) by (simp add: inv_seq_empty[symmetric])
      then show ?thesis
        unfolding parse_abort[OF assms(1,2) ne nm]
        using assms(3) nm inv_reset[OF ok] by auto
    qed
  next
    case (Some c)
    note fc = find_completes_Some[OF Some]
    show ?thesis
    proof (cases "seq s = []")
      case True
      from assms(1) True have z: "seq_length s = 0" by (simp add: inv_seq_empty)
      with fc(4) have st: "has c SP_START" by (simp add: eligible_def)
      show ?thesis
        unfolding parse_first[OF assms(1) ne Some True]
        using inv_first[OF assms(1) fc(1) st] True by (simp add: same_setup_def)
    next
      case False
      with assms(1) obtain p where p: "seq_protocol s = Some p"
        by (auto simp: invariant_def seq_inv_def split: list.splits option.splits)
      consider (last) "has c SP_END \<or> seq_length s + 1 = maxCodeLen p"
        | (over) "\<not> (has c SP_END \<or> seq_length s + 1 = maxCodeLen p)" "length (seq s) = 117"
        | (nxt) "\<not> has c SP_END" "seq_length s + 1 \<noteq> maxCodeLen p" "length (seq s) \<noteq> 117"
        by blast
      then show ?thesis
      proof cases
        case last
        then show ?thesis
          unfolding parse_later[OF assms(1) ne Some False p]
          using inv_reset[OF ok] False by simp
      next
        case over
        then show ?thesis
          unfolding parse_later[OF assms(1) ne Some False p]
          using inv_reset[OF ok] False by simp
      next
        case nxt
        then show ?thesis
          unfolding parse_later[OF assms(1) ne Some False p]
          using inv_next[OF assms(1) fc(1) fc(4) False p nxt] False
          by (simp add: same_setup_def)
      qed
    qed
  qed
qed

lemma no_retry_after_reset:
  assumes "\<forall>c \<in> set (code s). ok_code (protocol s) c"
  shows "\<not> (\<exists>c \<in> set (code (resetCode True s)). flags_retry (resetCode True s) d c)"
proof
  assume "\<exists>c \<in> set (code (resetCode True s)). flags_retry (resetCode True s) d c"
  then obtain c where c: "c \<in> set (code (resetCode True s))" "flags_retry (resetCode True s) d c"
    by blast
  from inv_reset(1)[OF assms] have i: "invariant (resetCode True s)" .
  then have "\<forall>c \<in> set (code (resetCode True s)). ok_code (protocol (resetCode True s)) c"
    unfolding invariant_def by blast
  with c(1) have "ok_code (protocol (resetCode True s)) c" by blast
  from flags_retry_ok[OF this inv_lock_ok[OF i], of d] c(2) have "cnt c \<noteq> 0" by simp
  moreover from c(1) have "cnt c = 0" by auto
  ultimately show False by simp
qed

lemma retry_idle:
  assumes "invariant s" and "c \<in> set (code s)" and "flags_retry s d c"
  shows "seq s = []" and "protocol s \<noteq> []"
proof -
  from assms(1,2) have ok: "ok_code (protocol s) c" by (simp add: invariant_def)
  from flags_retry_ok[OF ok inv_lock_ok[OF assms(1)], of d] assms(3)
  have "seq_length s = 0" by simp
  then show "seq s = []" using assms(1) by (simp add: inv_seq_empty)
  from ok show "protocol s \<noteq> []" by (auto simp: ok_code_def)
qed

lemma parse_step:
  assumes "invariant s" and "sink_ok s"
  shows "\<exists>s'. parse s d = Inr s' \<and> invariant s' \<and> same_setup s s' \<and>
     (seq s \<noteq> [] \<and> seq s' \<noteq> [] \<longrightarrow> seq_protocol s' = seq_protocol s \<and> hd (seq s') = hd (seq s)) \<and>
     (seq s = [] \<longrightarrow> sink s' = sink s)"
proof (cases "no_match s d \<and> (\<exists>c \<in> set (code s). flags_retry s d c)")
  case False
  then show ?thesis by (rule parse_step_noretry[OF assms])
next
  case True
  from assms(1) have ok: "\<forall>c \<in> set (code s). ok_code (protocol s) c"
    by (simp add: invariant_def)
  from True obtain c where c: "c \<in> set (code s)" "flags_retry s d c" by blast
  note ri = retry_idle[OF assms(1) c]
  have p: "parse s d = parse (resetCode True s) d"
    using True by (simp add: parse_abort[OF assms ri(2)])
  have so: "sink_ok (resetCode True s)"
    using assms(2) by (simp add: sink_ok_def)
  have nr: "\<not> (no_match (resetCode True s) d \<and>
      (\<exists>c \<in> set (code (resetCode True s)). flags_retry (resetCode True s) d c))"
    using no_retry_after_reset[OF ok] by blast
  from parse_step_noretry[OF inv_reset(1)[OF ok] so nr]
  obtain s' where "parse (resetCode True s) d = Inr s'" "invariant s'"
    "same_setup (resetCode True s) s'" "sink s' = sink s"
    by auto
  with ri(1) show ?thesis
    unfolding p using same_setup_trans[OF same_setup_reset(1)] by auto
qed



lemma eligible_update [simp]:
  "eligible (s\<lparr>code := cs\<rparr>) c = eligible s c"
  "eligible (s\<lparr>seq_codelength := n\<rparr>) c = eligible s c"
  "eligible (s\<lparr>seq := sq\<rparr>) c = eligible s c"
  "eligible s (advance s0 d c) = eligible s c"
  "eligible s (cdef c) = eligible s c"
  by (simp_all add: eligible_def)


lemma all_reset_after [simp]:
  "all_reset (s\<lparr>code := map cdef cs\<rparr>)"
  "all_reset (resetCode b s)"
  by (simp_all add: all_reset_def resetCode_def cdef_def Let_def)



















section \<open>Matcher: the gate and the lock on every reachable state\<close>






section \<open>Matcher: the retry\<close>

text \<open>
  C6. When \<^verbatim>\<open>parse\<close> calls itself for a duration, the call is made on a parser in which
  every code's \<^verbatim>\<open>cnt\<close> is zero, it computes the result of the outer call, and it does
  not call \<^verbatim>\<open>parse\<close> again: one re-invocation per duration at most, never a deeper one.
\<close>

theorem parse_retry_once:
  assumes "retry_state s d = Some s'"
  shows "parse s d = parse s' d \<and> (\<forall>c \<in> set (code s'). cnt c = 0) \<and> retry_state s' d = None"
proof -
  from assms obtain r s1 where p: "protocol s \<noteq> []"
    and sc: "scan_codes s d [] (code s) False False = Inr r"
    and m: "\<not> match r" and dc: "debug_callback (sc_state r) = Inr s1"
    and rc: "retryCandidate r" and s': "s' = resetCode True s1"
    by (auto simp: retry_state_def split: if_splits sum.splits)
  have 1: "parse s d = parse s' d"
    by (subst parse.simps) (simp add: p sc m dc rc s')
  have 2: "\<forall>c \<in> set (code s'). cnt c = 0"
    by (simp add: s' resetCode_def)
  have 3: "retry_state s' d = None"
  proof (rule ccontr)
    assume "retry_state s' d \<noteq> None"
    then obtain r' where "scan_codes s' d [] (code s') False False = Inr r'" "retryCandidate r'"
      by (auto simp: retry_state_def split: if_splits sum.splits)
    from scan_retry_cnt[OF this] 2 show False by simp
  qed
  from 1 2 3 show ?thesis by simp
qed

theorem parse_retry_once_witness:
  "retry_state it2_283 300 = Some it2 \<and> parse it2_283 300 = parse it2 300 \<and>
   retry_state it2 300 = None"
  using parse_retry_once [of it2_283 300 it2]
  by (simp add: retry_state_def it2_eq it2_283_def eval_defs)

section \<open>Matcher: a duration that no code accepts\<close>

lemma dec_length:
  assumes "n < 1000"
  shows "length (dec n) \<le> 3"
proof -
  have 1: "\<And>k. k < 10 \<Longrightarrow> length (dec k) = 1"
    by (subst dec.simps) simp
  have 2: "\<And>k. k < 100 \<Longrightarrow> length (dec k) \<le> 2"
  proof -
    fix k :: nat assume "k < 100"
    then have "k div 10 < 10" by simp
    from 1[OF this] show "length (dec k) \<le> 2"
      by (subst dec.simps) simp
  qed
  from assms have "n div 10 < 100" by simp
  from 2[OF this] show ?thesis
    by (subst dec.simps) simp
qed

lemma diagnostic_fits: "take 15 (diagnostic s) = diagnostic s"
proof -
  have "unat (seq_codelength s) < 1000" "unat (seq_length s) < 1000"
    using unsigned_less[of "seq_codelength s", where 'a=nat]
      unsigned_less[of "seq_length s", where 'a=nat] by simp_all
  then have "length (dec (unat (seq_codelength s))) \<le> 3" "length (dec (unat (seq_length s))) \<le> 3"
    by (simp_all add: dec_length)
  then show ?thesis
    by (simp add: diagnostic_def)
qed


lemma parse_abort_result:
  assumes "invariant s" and "sink_ok s" and "protocol s \<noteq> []" and "no_match s d"
  shows "\<exists>s'. parse s d = Inr s' \<and>
     sink s' = (if debugMode s \<and> seq_length s > 10 then sink s @ [diagnostic s] else sink s) \<and>
     (if \<exists>c \<in> set (code s). flags_retry s d c
      then seq s = [] \<and> parse (resetCode True s) d = Inr s'
      else s' = (resetCode True s)\<lparr>sink := sink s'\<rparr>)"
proof (cases "\<exists>c \<in> set (code s). flags_retry s d c")
  case True
  then obtain c where c: "c \<in> set (code s)" "flags_retry s d c" by blast
  note e = retry_idle(1)[OF assms(1) c]
  with assms(1) have z: "seq_length s = 0" by (simp add: inv_seq_empty)
  from assms(1) have ok: "\<forall>c \<in> set (code s). ok_code (protocol s) c"
    by (simp add: invariant_def)
  have so: "sink_ok (resetCode True s)"
    using assms(2) by (simp add: sink_ok_def)
  from parse_step[OF inv_reset(1)[OF ok] so, of d]
  obtain s' where "parse (resetCode True s) d = Inr s'" "sink s' = sink s"
    by auto
  with True e z show ?thesis
    by (simp add: parse_abort[OF assms])
next
  case False
  have "\<And>str. resetCode True (emit str s) = (resetCode True s)\<lparr>sink := sink s @ [str]\<rparr>"
    by (simp add: resetCode_True_eq emit_def)
  moreover have "resetCode True s = (resetCode True s)\<lparr>sink := sink s\<rparr>"
    by (simp add: resetCode_True_eq)
  ultimately show ?thesis
    using False by (simp add: parse_abort[OF assms] diagnostic_fits emit_def)
qed







lemma it2_debug_4_reached:
  "parse_all (init True it2)
     [283, 2658, 286, 1269, 287, 267, 286, 1269, 287, 267, 286, 1269, 287, 267] = Inr it2_debug_4"
  by (simp add: parse.simps init_def it2_debug_4_def it2_eq eval_defs)

text \<open>
  C10, as the code has it. In debug mode with a callback attached, when no valid code
  accepts the duration, the token \<open>*<_seq_codelength>,<_seq_length>\<close> is passed to the
  callback if and only if \<^verbatim>\<open>_seq_length\<close>, the number of decoded characters, is above
  10. \<^verbatim>\<open>_seq_codelength\<close> is the number of durations of the attempt as a \<^verbatim>\<open>uint8_t\<close>.
\<close>

theorem debug_diagnostic:
  assumes "invariant s" and "protocol s \<noteq> []" and "debugMode s" and "callbackFunc s"
    and "no_match s d"
  shows "\<exists>s'. parse s d = Inr s' \<and>
     (if seq_length s > 10
      then sink s' = sink s @ [''*'' @ dec (unat (seq_codelength s)) @ '','' @ dec (unat (seq_length s))]
      else sink s' = sink s)"
proof -
  from assms(3,4) have "sink_ok s" by (simp add: sink_ok_def)
  from parse_abort_result[OF assms(1) this assms(2,5)] assms(3) show ?thesis
    by (auto simp: diagnostic_def)
qed

lemma no_match_it2_debug: "no_match it2_debug_11 5000" "no_match it2_debug_4 5000"
  by (simp_all add: no_match_def accepts_def it2_debug_11_def it2_debug_4_def it2_eq eval_defs)

theorem debug_diagnostic_witness:
  "invariant it2_debug_11 \<and> no_match it2_debug_11 5000 \<and>
   parse it2_debug_11 5000 = Inr ((init True it2)\<lparr>sink := [''*42,11'']\<rparr>) \<and>
   invariant it2_debug_4 \<and> no_match it2_debug_4 5000 \<and>
   parse it2_debug_4 5000 = Inr (init True it2)"
  using debug_diagnostic [of it2_debug_11 5000] debug_diagnostic [of it2_debug_4 5000] no_match_it2_debug
  by (simp add: it2_debug_11_def it2_debug_4_def init_def it2_eq inv_defs eval_defs parse.simps dec.simps)

text \<open>
  C10 as stated fails: an attempt of 14 durations and 4 decoded characters is aborted in
  debug mode and the callback gets nothing.
\<close>

theorem debug_diagnostic_counterexample:
  "parse_all (init True it2)
     [283, 2658, 286, 1269, 287, 267, 286, 1269, 287, 267, 286, 1269, 287, 267] = Inr it2_debug_4 \<and>
   debugMode it2_debug_4 \<and> callbackFunc it2_debug_4 \<and> seq_codelength it2_debug_4 = 14 \<and>
   no_match it2_debug_4 5000 \<and> parse it2_debug_4 5000 = Inr (init True it2) \<and>
   sink (init True it2) = sink it2_debug_4"
  using no_match_it2_debug(2) it2_debug_4_reached
  by (simp add: it2_debug_4_def init_def it2_eq eval_defs parse.simps)

section \<open>Matcher: the end of a sequence\<close>

lemma word8_of_nat:
  assumes "k < 256"
  shows "unat (of_nat k :: 8 word) = k" and "(of_nat k :: 8 word) = 0 \<longleftrightarrow> k = 0"
    and "(of_nat k :: 8 word) = 100 \<longleftrightarrow> k = 100" and "0 < (of_nat k :: 8 word) \<longleftrightarrow> 0 < k"
    and "(2 :: 8 word) \<le> of_nat k \<longleftrightarrow> 2 \<le> k"
    and "(of_nat k :: 8 word) = 1 \<longleftrightarrow> k = 1"
proof -
  show u: "unat (of_nat k :: 8 word) = k"
    using assms by (simp add: unat_of_nat)
  show "(of_nat k :: 8 word) = 0 \<longleftrightarrow> k = 0"
    unfolding word_unat_eq_iff u by simp
  show "(of_nat k :: 8 word) = 100 \<longleftrightarrow> k = 100"
    unfolding word_unat_eq_iff u by simp
  show "0 < (of_nat k :: 8 word) \<longleftrightarrow> 0 < k"
    unfolding word_less_nat_alt u by simp
  show "(2 :: 8 word) \<le> of_nat k \<longleftrightarrow> 2 \<le> k"
    unfolding word_le_nat_alt u by simp
  show "(of_nat k :: 8 word) = 1 \<longleftrightarrow> k = 1"
    unfolding word_unat_eq_iff u by simp
qed

lemma word8_suc: "(of_nat k :: 8 word) + 1 = of_nat (Suc k)"
  by simp

lemma plain_start: "parse plain 1000 = Inr (plain_after 0)"
  by (simp add: parse.simps plain_eq plain_after_def eval_defs)



lemma plain_step:
  assumes "n < 90"
  shows "parse (plain_after n) 500 = Inr (plain_after (Suc n))"
proof -
  from assms have "Suc n < 256" "Suc (Suc n) < 256" "Suc (Suc n) \<noteq> 100" by simp_all
  note w = word8_of_nat[OF this(1)] word8_of_nat[OF this(2)] this(3)
  show ?thesis
    using assms
    by (simp add: parse.simps plain_eq plain_after_def eval_defs w word8_suc
        replicate_append_same del: of_nat_Suc)
qed

lemma parse_all_snoc:
  "d \<noteq> 0 \<Longrightarrow> 0 \<notin> set ds \<Longrightarrow> parse_all s ds = Inr s1 \<Longrightarrow> parse_all s (ds @ [d]) = parse s1 d"
  by (induction ds arbitrary: s) (auto split: sum.splits)

lemma plain_run:
  assumes "n \<le> 90"
  shows "parse_all plain (1000 # replicate n 500) = Inr (plain_after n)"
  using assms
proof (induction n)
  case 0
  then show ?case by (simp add: plain_start)
next
  case (Suc n)
  then have ih: "parse_all plain (1000 # replicate n 500) = Inr (plain_after n)" and n: "n < 90"
    by simp_all
  have "parse_all plain ((1000 # replicate n 500) @ [500]) = parse (plain_after n) 500"
    by (rule parse_all_snoc[OF _ _ ih]) simp_all
  then show ?case
    by (simp add: plain_step[OF n] replicate_append_same)
qed

lemma plain_end:
  "parse (plain_after 61) 5000 = Inr (plain\<lparr>sink := [''p s'' @ replicate 60 (CHR ''a'')]\<rparr>)"
proof -
  let ?txt = "''p'' @ '' '' @ cstr (CHR ''s'' # replicate 61 (CHR ''a'') @ ''x'')"
  have w: "(of_nat (Suc 61) :: 8 word) = 62" by simp
  have p: "parse (plain_after 61) 5000 = Inr (plain\<lparr>sink := [take 63 ?txt]\<rparr>)"
    by (simp add: parse.simps plain_eq plain_after_def eval_defs w del: of_nat_Suc)
  have c: "cstr (CHR ''s'' # replicate 61 (CHR ''a'') @ ''x'') = CHR ''s'' # replicate 61 (CHR ''a'') @ ''x''"
    unfolding cstr_def by (rule takeWhile_eq_all_conv[THEN iffD2]) (simp add: NUL_def)
  have "take 63 ?txt = ''p s'' @ take 60 (replicate 61 (CHR ''a''))"
    unfolding c by simp
  also have "take 60 (replicate 61 (CHR ''a'')) = replicate 60 (CHR ''a'')"
    by (simp add: take_replicate)
  finally show ?thesis
    unfolding p by simp
qed

text \<open>
  C1 at a sequence of 63 codes under the protocol \<^verbatim>\<open>p\<close>: the end code completes with 62
  characters in the sequence, a callback is attached and the length is above
  \<^verbatim>\<open>minCodeLen\<close>. The text \<open><protocolName> <codeCharacters>\<close> has 65 characters; the
  callback gets its first 63, the size of the buffer of \<^verbatim>\<open>snprintf\<close> less one. The matcher
  is reset.
\<close>

theorem emitted_text_cut:
  "parse_all plain (1000 # replicate 61 500 @ [5000]) =
     Inr (plain\<lparr>sink := [''p s'' @ replicate 60 (CHR ''a'')]\<rparr>) \<and>
   length (''p s'' @ replicate 61 (CHR ''a'') @ ''x'') = 65"
proof -
  have "parse_all plain ((1000 # replicate 61 500) @ [5000]) = parse (plain_after 61) 5000"
    by (rule parse_all_snoc[OF _ _ plain_run]) simp_all
  then show ?thesis
    by (simp add: plain_end)
qed

section \<open>Composer\<close>

lemma findCode_Some:
  "findCode cs i ch = Some c \<Longrightarrow> c \<in> set cs \<and> protId c = i \<and> cname c = ch"
  by (induction cs) (auto split: if_splits)

lemma compose_loop_eq:
  assumes "\<forall>c \<in> set (code st). unat (clength c) \<le> length (minTime c) \<and> unat (clength c) \<le> length (maxTime c)"
  shows "compose_loop st p cs len =
     Inr (concat (map (char_timings st p) (if len < 0 then cs else take (nat len) cs)))"
proof (induction cs arbitrary: len)
  case Nil
  then show ?case by simp
next
  case (Cons ch cs)
  show ?case
  proof (cases "len = 0")
    case True
    then show ?thesis by simp
  next
    case False
    have tk: "(if len < 0 then ch # cs else take (nat len) (ch # cs)) =
        ch # (if len - 1 < 0 then cs else take (nat (len - 1)) cs)"
      using False by (cases "len < 0") (simp_all add: take_Cons' nat_diff_distrib)
    show ?thesis
    proof (cases "findCode (code st) (pid p) ch")
      case None
      with False show ?thesis
        unfolding tk by (simp add: Cons.IH char_timings_def)
    next
      case (Some c)
      then have "c \<in> set (code st)" by (simp add: findCode_Some)
      with assms have "code_timings c = Inr (code_midpoints c)"
        by (simp add: code_timings_def code_midpoints_def)
      with False Some show ?thesis
        unfolding tk by (simp add: Cons.IH char_timings_def)
    qed
  qed
qed

text \<open>
  What \<^verbatim>\<open>compose\<close> writes, for a sequence with a space whose protocol name resolves:
  for each processed character of the code list in order, the midpoints of all slots of
  its code (nothing for a character without a code), and then a zero. The loop counts
  \<open>len\<close> down once per character, so \<open>len\<close> bounds the number of characters processed
  and a negative \<open>len\<close> bounds nothing.
\<close>

lemma compose_chars:
  assumes "findProt_name (protocol st)
             (takeWhile (\<lambda>ch. ch \<noteq> CHR '' '') (take 11 (cstr sequence))) = Some p"
    and "CHR '' '' \<in> set (cstr sequence)"
    and "\<forall>c \<in> set (code st). unat (clength c) \<le> length (minTime c) \<and> unat (clength c) \<le> length (maxTime c)"
    and "chars = tl (dropWhile (\<lambda>ch. ch \<noteq> CHR '' '') (cstr sequence))"
  shows "compose st sequence True len =
     Inr (Some (concat (map (char_timings st p) (if len < 0 then chars else take (nat len) chars)) @ [0]))"
  using assms(1,2,4)
  by (simp add: compose_def PROTNAME_LEN_def Let_def compose_loop_eq[OF assms(3)])

lemma compose_chars_it2:
  "compose it2 ''it2 s#_x'' True 100 =
     Inr (Some [283, 2658, 286, 1269, 287, 267, 286, 255, 296, 1269, 286, 10000, 0])"
  using compose_chars [of it2 "''it2 s#_x''" "hd (protocol it2)" "''s#_x''" 100]
  by (simp add: it2_eq cstr_def NUL_def char_timings_def code_midpoints_def midpoint_def upt_rec)

text \<open>
  C7. The midpoints of every slot of each resolved code are written in order, unresolved
  characters are skipped and a zero ends the list, but the output does not stop when
  \<open>len\<close> durations have been written: \<^verbatim>\<open>compose("it2 s#_x", timings, 2)\<close> writes the six
  durations of \<^verbatim>\<open>s\<close> and \<^verbatim>\<open>#\<close> and the zero, seven values for a count of two. The
  loop tests \<open>len\<close> and counts it down, once per character processed and not once per
  value stored through \<^verbatim>\<open>*timings++\<close>.
\<close>

theorem compose_len_overrun:
  "compose it2 ''it2 s#_x'' True 2 = Inr (Some [283, 2658, 286, 1269, 287, 267, 0]) \<and>
   length [283, 2658, 286, 1269, 287, 267, 0 :: CodeTime] > 2"
  by (simp add: compose_def it2_eq cstr_def code_timings_def midpoint_def upt_rec consts_defs)
section \<open>Composer and matcher: the round trip\<close>

lemma key_cdef [simp]: "key (cdef c) = key c"
  by (simp add: key_def)

lemma key_advance [simp]: "key (advance s d c) = key c"
  by (simp add: key_def)

lemma cdef_eq_fields:
  assumes "cdef x = cdef y"
  shows "protId x = protId y" "cname x = cname y" "clength x = clength y"
    "minTime x = minTime y" "maxTime x = maxTime y" "ctype x = ctype y" "key x = key y"
    "has x f = has y f"
proof -
  have "protId (cdef x) = protId (cdef y)" "cname (cdef x) = cname (cdef y)"
    "clength (cdef x) = clength (cdef y)" "minTime (cdef x) = minTime (cdef y)"
    "maxTime (cdef x) = maxTime (cdef y)" "ctype (cdef x) = ctype (cdef y)"
    "key (cdef x) = key (cdef y)" "has (cdef x) f = has (cdef y) f"
    using assms by simp_all
  then show "protId x = protId y" "cname x = cname y" "clength x = clength y"
    "minTime x = minTime y" "maxTime x = maxTime y" "ctype x = ctype y" "key x = key y"
    "has x f = has y f"
    by (simp_all add: cdef_def key_def has_def)
qed

lemma cdef_key_unique:
  assumes "distinct (map key cs)" and "map cdef us = map cdef cs"
    and "x \<in> set us" and "c \<in> set cs" and "key x = key c"
  shows "cdef x = cdef c"
proof -
  from assms(3) have "cdef x \<in> set (map cdef us)" by simp
  with assms(2) obtain y where y: "y \<in> set cs" "cdef x = cdef y" by auto
  then have "key y = key c" using assms(5) cdef_eq_fields(7)[of x y] by simp
  with assms(1,4) y(1) have "y = c"
    by (meson distinct_map inj_onD)
  with y(2) show ?thesis by simp
qed

lemma fits_cdef_eq:
  assumes "cdef x = cdef y" and "cnt x = of_nat k"
  shows "fits x d = fits_at y k d"
proof -
  note f = cdef_eq_fields[OF assms(1)]
  show ?thesis
    unfolding fits_def fits_at_def Let_def using f(3,4,5) f(8)[of SP_END] assms(2)
    by (simp add: has_def)
qed

lemma midpoint_between:
  assumes "lo \<le> hi"
  shows "lo \<le> midpoint lo hi" and "midpoint lo hi \<le> hi"
proof -
  from assms have le: "unat lo \<le> unat hi" by (simp add: word_le_nat_alt)
  have b: "(unat lo + unat hi) div 2 \<le> unat hi" using le by linarith
  have "unat hi < 2 ^ 16" using unsigned_less[of hi, where 'a=nat] by simp
  with b have "(unat lo + unat hi) div 2 < 2 ^ LENGTH(16)" by simp
  then have u: "unat (midpoint lo hi) = (unat lo + unat hi) div 2"
    unfolding midpoint_def unat_of_nat by (rule mod_less)
  show "lo \<le> midpoint lo hi" unfolding word_le_nat_alt u using le by linarith
  show "midpoint lo hi \<le> hi" unfolding word_le_nat_alt u using b .
qed


lemma tracked_fields:
  assumes "tracked t c k u"
  shows "seq u = seq t" "seq_length u = seq_length t" "seq_protocol u = seq_protocol t"
    "protocol u = protocol t" "debugMode u = debugMode t" "callbackFunc u = callbackFunc t"
    "sink u = sink t" "map cdef (code u) = map cdef (code t)"
proof -
  from assms have eq: "u = t\<lparr>code := code u, seq_codelength := seq_codelength u\<rparr>"
    and m: "map cdef (code u) = map cdef (code t)"
    by (simp_all add: tracked_def)
  show "seq u = seq t" using arg_cong[OF eq, of seq] by simp
  show "seq_length u = seq_length t" using arg_cong[OF eq, of seq_length] by simp
  show "seq_protocol u = seq_protocol t" using arg_cong[OF eq, of seq_protocol] by simp
  show "protocol u = protocol t" using arg_cong[OF eq, of protocol] by simp
  show "debugMode u = debugMode t" using arg_cong[OF eq, of debugMode] by simp
  show "callbackFunc u = callbackFunc t" using arg_cong[OF eq, of callbackFunc] by simp
  show "sink u = sink t" using arg_cong[OF eq, of sink] by simp
  show "map cdef (code u) = map cdef (code t)" by (rule m)
qed

lemma locked_by_cdef_cong:
  assumes "map cdef cs = map cdef cs'"
  shows "locked_by cs ps p ch = locked_by cs' ps p ch"
proof -
  have "locked_by (map cdef cs) ps p ch = locked_by (map cdef cs') ps p ch"
    using assms by simp
  then show ?thesis by (simp only: locked_by_map)
qed

lemma followers_cdef_cong:
  assumes "map cdef cs = map cdef cs'"
  shows "followers cs p n str = followers cs' p n str"
proof -
  have "followers (map cdef cs) p n str = followers (map cdef cs') p n str"
    using assms by simp
  then show ?thesis by (simp only: followers_map)
qed

lemma tracked_invariant:
  assumes "invariant t" and "tracked t c k u"
  shows "invariant u"
proof -
  note f = tracked_fields[OF assms(2)]
  from assms(2) have ok: "\<forall>x \<in> set (code u). ok_code (protocol u) x"
    by (simp add: tracked_def f(4))
  have "seq_inv u = seq_inv t"
    unfolding seq_inv_def f(1,3,4) locked_by_cdef_cong[OF f(8)] followers_cdef_cong[OF f(8)] ..
  with assms(1) ok show ?thesis
    by (simp add: invariant_def f)
qed

lemma eligible_tracked:
  assumes "tracked t c k u" and "cdef x = cdef y"
  shows "eligible u x = eligible t y"
  unfolding eligible_def tracked_fields(2,3)[OF assms(1)]
    cdef_eq_fields(1)[OF assms(2)] cdef_eq_fields(8)[OF assms(2)] ..

lemma unat_of_nat8: "k < 256 \<Longrightarrow> unat (of_nat k :: 8 word) = k"
  by (simp add: unat_of_nat)

lemma midpoint_fits:
  assumes "ok_code ps c" and "k < unat (clength c)"
    and "\<forall>i < unat (clength c). 0 < minTime c ! i \<and> minTime c ! i \<le> maxTime c ! i"
  shows "fits_at c k (code_midpoints c ! k)" and "code_midpoints c ! k \<noteq> 0"
proof -
  from assms(1) have "unat (clength c) \<le> 8" by (rule ok_code_sint(3))
  with assms(2) have k: "unat (of_nat k :: 8 word) = k" by (simp add: unat_of_nat8)
  from assms(2,3) have w: "0 < minTime c ! k" "minTime c ! k \<le> maxTime c ! k" by simp_all
  have m: "code_midpoints c ! k = midpoint (minTime c ! k) (maxTime c ! k)"
    using assms(2) by (simp add: code_midpoints_def)
  note b = midpoint_between[OF w(2)]
  show "fits_at c k (code_midpoints c ! k)"
    unfolding fits_at_def fits_def m Let_def using b by (simp add: k)
  from w(1) b(1) have "0 < midpoint (minTime c ! k) (maxTime c ! k)"
    by (rule less_le_trans)
  then show "code_midpoints c ! k \<noteq> 0" unfolding m by simp
qed


lemma fits_at_cdef:
  assumes "cdef x = cdef y"
  shows "fits_at x i d = fits_at y i d"
proof -
  have "cdef (x\<lparr>cnt := of_nat i\<rparr>) = cdef y" using assms by (simp add: cdef_def)
  from fits_cdef_eq[OF this, of i d] show ?thesis
    by (simp add: fits_at_def)
qed

lemma eligible_comparable:
  assumes "eligible t x" and "eligible t y"
  shows "comparable x y"
  using assms by (auto simp: eligible_def comparable_def split: if_splits)

lemma tracked_accepts:
  assumes "invariant t" and "tracked t c k u" and "x \<in> set (code u)"
  shows "accepts u d x \<longleftrightarrow> valid x \<and> eligible u x \<and> fits x d"
proof -
  note iu = tracked_invariant[OF assms(1,2)]
  from iu assms(3) have "ok_code (protocol u) x" by (simp add: invariant_def)
  from accepts_ok[OF this inv_lock_ok[OF iu]] show ?thesis .
qed

lemma tracked_self:
  assumes "unambiguous t" and "tracked t c k u" and "c \<in> set (code t)"
    and "x \<in> set (code u)" and "key x = key c"
  shows "cdef x = cdef c" and "valid x" and "cnt x = of_nat k"
proof -
  from assms(1) have d: "distinct (map key (code t))" by (simp add: unambiguous_def)
  show "cdef x = cdef c"
    by (rule cdef_key_unique[OF d tracked_fields(8)[OF assms(2)] assms(4,3,5)])
  from assms(2,4,5) show "valid x" "cnt x = of_nat k"
    by (simp_all add: tracked_def)
qed

lemma tracked_self_accepts:
  assumes "invariant t" and "unambiguous t" and "tracked t c k u" and "c \<in> set (code t)"
    and "eligible t c" and "k < unat (clength c)" and "x \<in> set (code u)" and "key x = key c"
  shows "accepts u (code_midpoints c ! k) x"
proof -
  note s = tracked_self[OF assms(2,3,4,7,8)]
  from assms(1,4) have ok: "ok_code (protocol t) c" by (simp add: invariant_def)
  from assms(2,4) have w: "\<forall>i < unat (clength c). 0 < minTime c ! i \<and> minTime c ! i \<le> maxTime c ! i"
    by (simp add: unambiguous_def)
  have "fits x (code_midpoints c ! k)"
    unfolding fits_cdef_eq[OF s(1,3)] by (rule midpoint_fits(1)[OF ok assms(6) w])
  moreover have "eligible u x"
    unfolding eligible_tracked[OF assms(3) s(1)] by (rule assms(5))
  ultimately show ?thesis
    unfolding tracked_accepts[OF assms(1,3,7)] using s(2) by simp
qed

lemma tracked_other:
  assumes "invariant t" and "unambiguous t" and "tracked t c k u" and "c \<in> set (code t)"
    and "eligible t c" and "k < unat (clength c)" and "x \<in> set (code u)" and "key x \<noteq> key c"
  shows "\<not> completes u (code_midpoints c ! k) x"
proof
  let ?d = "code_midpoints c ! k"
  assume cp: "completes u ?d x"
  note iu = tracked_invariant[OF assms(1,3)]
  from iu assms(7) have okx: "ok_code (protocol u) x" by (simp add: invariant_def)
  from cp have acc: "accepts u ?d x" and fin: "cnt x + 1 = clength x"
    by (simp_all add: completes_ok[OF okx])
  from acc have v: "valid x" and el: "eligible u x" and ft: "fits x ?d"
    by (simp_all add: tracked_accepts[OF assms(1,3,7)])
  from assms(3,7,8) v have cx: "cnt x = of_nat k"
    and prev: "\<forall>i < k. fits_at x i (code_midpoints c ! i)"
    by (simp_all add: tracked_def)
  have "fits_at x k ?d" using ft fits_cdef_eq[OF refl cx, of ?d] by simp
  with prev have all: "\<forall>i < Suc k. fits_at x i (code_midpoints c ! i)"
    by (simp add: less_Suc_eq)
  from assms(1,4) have okc: "ok_code (protocol t) c" by (simp add: invariant_def)
  from ok_code_sint(3)[OF okc] assms(6) have k8: "k < 256" by simp
  have "unat (cnt x + 1) = unat (cnt x) + 1" by (rule ok_code_next(3)[OF okx])
  then have lx: "unat (clength x) = Suc k"
    unfolding fin[symmetric] cx by (simp add: unat_of_nat8[OF k8])
  from assms(7) have "cdef x \<in> set (map cdef (code u))" by simp
  then obtain y where y: "y \<in> set (code t)" "cdef x = cdef y"
    unfolding tracked_fields(8)[OF assms(3)] by auto
  have ky: "key c \<noteq> key y" using assms(8) cdef_eq_fields(7)[OF y(2)] by simp
  have "eligible t y" using el eligible_tracked[OF assms(3) y(2)] by simp
  then have "comparable c y" by (rule eligible_comparable[OF assms(5)])
  with assms(2,4) y(1) ky have "told_apart c y"
    by (simp add: unambiguous_def)
  then obtain i where i: "i < unat (clength c)" "i < unat (clength y)"
    "\<not> fits_at y i (code_midpoints c ! i)"
    by (auto simp: told_apart_def)
  from i(2) have "i < Suc k" using lx cdef_eq_fields(3)[OF y(2)] by simp
  with all have "fits_at x i (code_midpoints c ! i)" by simp
  with i(3) show False by (simp add: fits_at_cdef[OF y(2)])
qed


lemma tracked_has_self:
  assumes "tracked t c k u" and "c \<in> set (code t)"
  shows "\<exists>x \<in> set (code u). key x = key c"
proof -
  from assms(2) have "cdef c \<in> set (map cdef (code t))" by simp
  then obtain x where "x \<in> set (code u)" "cdef x = cdef c"
    unfolding tracked_fields(8)[OF assms(1), symmetric] by auto
  then show ?thesis using cdef_eq_fields(7) by blast
qed

lemma tracked_self_completes:
  assumes "invariant t" and "unambiguous t" and "tracked t c k u" and "c \<in> set (code t)"
    and "eligible t c" and "k < unat (clength c)" and "x \<in> set (code u)" and "key x = key c"
  shows "completes u (code_midpoints c ! k) x \<longleftrightarrow> Suc k = unat (clength c)"
proof -
  note s = tracked_self[OF assms(2,3,4,7,8)]
  note iu = tracked_invariant[OF assms(1,3)]
  from iu assms(7) have okx: "ok_code (protocol u) x" by (simp add: invariant_def)
  from assms(1,4) have okc: "ok_code (protocol t) c" by (simp add: invariant_def)
  from ok_code_sint(3)[OF okc] assms(6) have k8: "k < 256" by simp
  have "unat (cnt x + 1) = Suc k"
    using ok_code_next(3)[OF okx] unfolding s(3) by (simp add: unat_of_nat8[OF k8])
  then have "cnt x + 1 = clength x \<longleftrightarrow> Suc k = unat (clength c)"
    unfolding word_unat_eq_iff cdef_eq_fields(3)[OF s(1)] by auto
  then show ?thesis
    unfolding completes_ok[OF okx] using tracked_self_accepts[OF assms] by simp
qed

lemma feed_step:
  assumes "invariant t" and "unambiguous t" and "tracked t c k u" and "c \<in> set (code t)"
    and "eligible t c" and "Suc k < unat (clength c)"
  shows "\<exists>u'. parse u (code_midpoints c ! k) = Inr u' \<and> tracked t c (Suc k) u'"
proof -
  let ?d = "code_midpoints c ! k"
  let ?u' = "u\<lparr>code := map (advance u ?d) (code u), seq_codelength := seq_codelength u + 1\<rparr>"
  from assms(6) have kl: "k < unat (clength c)" by simp
  note iu = tracked_invariant[OF assms(1,3)]
  from assms(1,4) have okc: "ok_code (protocol t) c" by (simp add: invariant_def)
  then have ne: "protocol u \<noteq> []"
    unfolding tracked_fields(4)[OF assms(3)] by (auto simp: ok_code_def)
  have nc: "\<forall>x \<in> set (code u). \<not> completes u ?d x"
  proof
    fix x assume x: "x \<in> set (code u)"
    show "\<not> completes u ?d x"
    proof (cases "key x = key c")
      case True
      from tracked_self_completes[OF assms(1-5) kl x True] assms(6) show ?thesis by simp
    next
      case False
      then show ?thesis by (rule tracked_other[OF assms(1-5) kl x])
    qed
  qed
  then have none: "find (completes u ?d) (code u) = None"
    by (simp add: find_None_iff)
  from tracked_has_self[OF assms(3,4)] obtain x0 where x0: "x0 \<in> set (code u)" "key x0 = key c"
    by blast
  then have ex: "\<exists>x \<in> set (code u). accepts u ?d x"
    using tracked_self_accepts[OF assms(1-5) kl] by blast
  have p: "parse u ?d = Inr ?u'"
    by (rule parse_advance[OF iu ne none ex])
  from assms(3) have eq: "u = t\<lparr>code := code u, seq_codelength := seq_codelength u\<rparr>"
    by (simp add: tracked_def)
  have eq': "?u' = t\<lparr>code := code ?u', seq_codelength := seq_codelength ?u'\<rparr>"
    by (subst eq) simp
  have m: "map cdef (code ?u') = map cdef (code t)"
    using tracked_fields(8)[OF assms(3)] by simp
  from ok_code_sint(3)[OF okc] kl have k8: "k < 256" by simp
  have each: "\<forall>x \<in> set (code u).
      ok_code (protocol t) (advance u ?d x) \<and>
      (key x = key c \<longrightarrow> valid (advance u ?d x) \<and> cnt (advance u ?d x) = of_nat (Suc k)) \<and>
      (key x \<noteq> key c \<longrightarrow> valid (advance u ?d x) \<longrightarrow>
         cnt (advance u ?d x) = of_nat (Suc k) \<and>
         (\<forall>i < Suc k. fits_at (advance u ?d x) i (code_midpoints c ! i)))"
  proof
    fix x assume x: "x \<in> set (code u)"
    from iu x have okx: "ok_code (protocol u) x" by (simp add: invariant_def)
    have 1: "ok_code (protocol t) (advance u ?d x)"
      using ok_advance[OF okx] nc x unfolding tracked_fields(4)[OF assms(3)] by simp
    have 2: "key x = key c \<longrightarrow> valid (advance u ?d x) \<and> cnt (advance u ?d x) = of_nat (Suc k)"
    proof
      assume k: "key x = key c"
      note s = tracked_self[OF assms(2,3,4) x k]
      from tracked_self_accepts[OF assms(1-5) kl x k] s(2,3)
      show "valid (advance u ?d x) \<and> cnt (advance u ?d x) = of_nat (Suc k)"
        by (simp add: advance_def)
    qed
    have 3: "key x \<noteq> key c \<longrightarrow> valid (advance u ?d x) \<longrightarrow>
         cnt (advance u ?d x) = of_nat (Suc k) \<and>
         (\<forall>i < Suc k. fits_at (advance u ?d x) i (code_midpoints c ! i))"
    proof (intro impI)
      assume k: "key x \<noteq> key c" and v': "valid (advance u ?d x)"
      from v' have v: "valid x" and acc: "accepts u ?d x"
        by (auto simp: advance_def split: if_splits)
      from assms(3) x k v have cx: "cnt x = of_nat k"
        and prev: "\<forall>i < k. fits_at x i (code_midpoints c ! i)"
        by (simp_all add: tracked_def)
      from acc have "fits x ?d" by (simp add: tracked_accepts[OF assms(1,3) x])
      then have "fits_at x k ?d" using fits_cdef_eq[OF refl cx, of ?d] by simp
      with prev have all: "\<forall>i < Suc k. fits_at x i (code_midpoints c ! i)"
        by (simp add: less_Suc_eq)
      have "cdef (advance u ?d x) = cdef x" by simp
      from fits_at_cdef[OF this] all
      have "\<forall>i < Suc k. fits_at (advance u ?d x) i (code_midpoints c ! i)" by simp
      moreover have "cnt (advance u ?d x) = of_nat (Suc k)"
        using v acc cx by (simp add: advance_def)
      ultimately show "cnt (advance u ?d x) = of_nat (Suc k) \<and>
         (\<forall>i < Suc k. fits_at (advance u ?d x) i (code_midpoints c ! i))" by simp
    qed
    from 1 2 3 show "ok_code (protocol t) (advance u ?d x) \<and>
      (key x = key c \<longrightarrow> valid (advance u ?d x) \<and> cnt (advance u ?d x) = of_nat (Suc k)) \<and>
      (key x \<noteq> key c \<longrightarrow> valid (advance u ?d x) \<longrightarrow>
         cnt (advance u ?d x) = of_nat (Suc k) \<and>
         (\<forall>i < Suc k. fits_at (advance u ?d x) i (code_midpoints c ! i)))" by blast
  qed
  have "tracked t c (Suc k) ?u'"
    unfolding tracked_def using eq' m each by simp
  with p show ?thesis by blast
qed


lemma all_reset_cdef: "all_reset t \<Longrightarrow> map cdef (code t) = code t"
proof -
  assume a: "all_reset t"
  have "\<forall>x \<in> set (code t). cdef x = x"
  proof
    fix x assume "x \<in> set (code t)"
    with a have "cnt x = 0" "valid x" by (simp_all add: all_reset_def)
    then show "cdef x = x" by (simp add: cdef_def)
  qed
  then show ?thesis by (simp add: map_idI)
qed

lemma found_code_cdef_eq:
  assumes "cdef x = cdef c"
  shows "found_code x st = found_code c st"
  unfolding found_code_def cdef_eq_fields(1)[OF assms] cdef_eq_fields(8)[OF assms] ..

lemma parse_all_append:
  "0 \<notin> set ds \<Longrightarrow>
   parse_all s (ds @ es) = (case parse_all s ds of Inl e \<Rightarrow> Inl e | Inr s1 \<Rightarrow> parse_all s1 es)"
  by (induction ds arbitrary: s) (auto split: sum.splits)

lemma feed_last:
  assumes "invariant t" and "unambiguous t" and "tracked t c k u" and "c \<in> set (code t)"
    and "eligible t c" and "Suc k = unat (clength c)"
  shows "parse u (code_midpoints c ! k) =
     found_code c (t\<lparr>code := map cdef (code t), seq := seq t @ [cname c],
       seq_length := seq_length t + 1, seq_codelength := seq_codelength u + 1\<rparr>)"
proof -
  let ?d = "code_midpoints c ! k"
  from assms(6) have kl: "k < unat (clength c)" by simp
  note iu = tracked_invariant[OF assms(1,3)]
  note f = tracked_fields[OF assms(3)]
  from assms(1,4) have okc: "ok_code (protocol t) c" by (simp add: invariant_def)
  then have ne: "protocol u \<noteq> []"
    unfolding f(4) by (auto simp: ok_code_def)
  from tracked_has_self[OF assms(3,4)] obtain x0 where x0: "x0 \<in> set (code u)" "key x0 = key c"
    by blast
  from tracked_self_completes[OF assms(1-5) kl x0] assms(6) have "completes u ?d x0" by simp
  with x0(1) have "find (completes u ?d) (code u) \<noteq> None"
    by (auto simp: find_None_iff)
  then obtain x where fx: "find (completes u ?d) (code u) = Some x" by auto
  note fc = find_completes_Some(1,2)[OF fx]
  have "key x = key c"
    using tracked_other[OF assms(1-5) kl fc(1)] fc(2) by blast
  note s = tracked_self[OF assms(2,3,4) fc(1) this]
  from assms(3) have eq: "u = t\<lparr>code := code u, seq_codelength := seq_codelength u\<rparr>"
    by (simp add: tracked_def)
  have st: "u\<lparr>code := map cdef (code u), seq := seq u @ [cname x],
       seq_length := seq_length u + 1, seq_codelength := seq_codelength u + 1\<rparr> =
     t\<lparr>code := map cdef (code t), seq := seq t @ [cname c],
       seq_length := seq_length t + 1, seq_codelength := seq_codelength u + 1\<rparr>"
    unfolding f(1,2,8) cdef_eq_fields(2)[OF s(1)] by (subst eq) simp
  show ?thesis
    unfolding parse_complete[OF iu ne fx] st by (rule found_code_cdef_eq[OF s(1)])
qed

lemma tracked_start:
  assumes "invariant t" and "all_reset t"
  shows "tracked t c 0 t"
  using assms by (simp add: tracked_def invariant_def all_reset_def)

lemma feed_prefix:
  assumes "invariant t" and "unambiguous t" and "all_reset t" and "c \<in> set (code t)"
    and "eligible t c" and "k < unat (clength c)"
  shows "\<exists>u. parse_all t (take k (code_midpoints c)) = Inr u \<and> tracked t c k u"
  using assms(6)
proof (induction k)
  case 0
  show ?case using tracked_start[OF assms(1,3)] by simp
next
  case (Suc k)
  then obtain u where u: "parse_all t (take k (code_midpoints c)) = Inr u" "tracked t c k u"
    by auto
  from assms(1,4) have okc: "ok_code (protocol t) c" by (simp add: invariant_def)
  from assms(2,4) have w: "\<forall>i < unat (clength c). 0 < minTime c ! i \<and> minTime c ! i \<le> maxTime c ! i"
    by (simp add: unambiguous_def)
  have len: "length (code_midpoints c) = unat (clength c)"
    by (simp add: code_midpoints_def)
  have nz: "0 \<notin> set (take k (code_midpoints c))"
  proof
    assume "0 \<in> set (take k (code_midpoints c))"
    then obtain i where "i < k" "i < length (code_midpoints c)" "code_midpoints c ! i = 0"
      by (auto simp: in_set_conv_nth)
    with midpoint_fits(2)[OF okc _ w, of i] len show False by simp
  qed
  have tk: "take (Suc k) (code_midpoints c) = take k (code_midpoints c) @ [code_midpoints c ! k]"
    using Suc.prems len by (simp add: take_Suc_conv_app_nth)
  from feed_step[OF assms(1,2) u(2) assms(4,5) Suc.prems]
  obtain u' where u': "parse u (code_midpoints c ! k) = Inr u'" "tracked t c (Suc k) u'"
    by blast
  have dz: "code_midpoints c ! k \<noteq> 0"
    using midpoint_fits(2)[OF okc _ w, of k] Suc.prems by simp
  have "parse_all t (take (Suc k) (code_midpoints c)) = Inr u'"
    unfolding tk parse_all_append[OF nz] u(1) using u'(1) dz by simp
  with u'(2) show ?case by blast
qed

lemma feed_code:
  assumes "invariant t" and "unambiguous t" and "all_reset t" and "c \<in> set (code t)"
    and "eligible t c"
  shows "0 \<notin> set (code_midpoints c) \<and>
    (\<exists>n. parse_all t (code_midpoints c) =
       found_code c (t\<lparr>seq := seq t @ [cname c], seq_length := seq_length t + 1,
         seq_codelength := n\<rparr>))"
proof -
  from assms(1,4) have okc: "ok_code (protocol t) c" by (simp add: invariant_def)
  from assms(2,4) have w: "\<forall>i < unat (clength c). 0 < minTime c ! i \<and> minTime c ! i \<le> maxTime c ! i"
    by (simp add: unambiguous_def)
  have len: "length (code_midpoints c) = unat (clength c)"
    by (simp add: code_midpoints_def)
  from ok_code_sint(4)[OF okc] obtain k where k: "unat (clength c) = Suc k"
    by (cases "unat (clength c)") auto
  have nz: "0 \<notin> set (code_midpoints c)"
  proof
    assume "0 \<in> set (code_midpoints c)"
    then obtain i where "i < length (code_midpoints c)" "code_midpoints c ! i = 0"
      by (auto simp: in_set_conv_nth)
    with midpoint_fits(2)[OF okc _ w, of i] len show False by simp
  qed
  then have nz': "0 \<notin> set (take k (code_midpoints c))"
    by (meson in_set_takeD)
  have dz: "code_midpoints c ! k \<noteq> 0"
    using midpoint_fits(2)[OF okc _ w, of k] k by simp
  have tk: "code_midpoints c = take k (code_midpoints c) @ [code_midpoints c ! k]"
    using take_Suc_conv_app_nth[of k "code_midpoints c"] len k by simp
  from feed_prefix[OF assms, of k] k obtain u
    where u: "parse_all t (take k (code_midpoints c)) = Inr u" "tracked t c k u"
    by auto
  have st: "t\<lparr>code := map cdef (code t), seq := seq t @ [cname c],
       seq_length := seq_length t + 1, seq_codelength := seq_codelength u + 1\<rparr> =
     t\<lparr>seq := seq t @ [cname c], seq_length := seq_length t + 1,
       seq_codelength := seq_codelength u + 1\<rparr>"
    unfolding all_reset_cdef[OF assms(3)] by simp
  have "parse_all t (take k (code_midpoints c) @ [code_midpoints c ! k]) =
     found_code c (t\<lparr>seq := seq t @ [cname c], seq_length := seq_length t + 1,
       seq_codelength := seq_codelength u + 1\<rparr>)"
    unfolding parse_all_append[OF nz'] u(1)
    using feed_last[OF assms(1,2) u(2) assms(4,5) k[symmetric]] dz
    unfolding st by (simp split: sum.splits)
  then show ?thesis
    using nz tk by metis
qed


lemma findProt_id_Some:
  "findProt_id ps i = Some p \<Longrightarrow> p \<in> set ps \<and> pid p = i"
  by (induction ps) (auto split: if_splits)

lemma findCode_key:
  assumes "distinct (map key cs)" and "c \<in> set cs"
  shows "findCode cs (protId c) (cname c) = Some c"
  using assms
proof (induction cs)
  case Nil
  then show ?case by simp
next
  case (Cons a cs)
  show ?case
  proof (cases "protId a = protId c \<and> cname a = cname c")
    case True
    then have "key a = key c" by (simp add: key_def)
    with Cons.prems have "a = c" by (auto simp: image_iff)
    with True show ?thesis by simp
  next
    case False
    with Cons have "c \<in> set cs" by auto
    with Cons False show ?thesis by auto
  qed
qed

lemma char_timings_key:
  assumes "unambiguous t" and "c \<in> set (code t)" and "protId c = pid p"
  shows "char_timings t p (cname c) = code_midpoints c"
proof -
  from assms(1) have "distinct (map key (code t))" by (simp add: unambiguous_def)
  from findCode_key[OF this assms(2)] show ?thesis
    by (simp add: char_timings_def assms(3))
qed

lemma seq_length_one:
  assumes "invariant t"
  shows "seq_length t + 1 = 1 \<longleftrightarrow> seq t = []"
  using inv_seq_empty[OF assms] by simp

lemma replay_first:
  assumes "invariant t" and "unambiguous t" and "all_reset t" and "seq t = []"
    and "c \<in> set (code t)" and "has c SP_START"
  shows "0 \<notin> set (code_midpoints c) \<and>
    (\<exists>n. parse_all t (code_midpoints c) =
       Inr (t\<lparr>seq := [cname c], seq_length := 1, seq_codelength := n,
         seq_protocol := findProt_id (protocol t) (protId c)\<rparr>))"
proof -
  from assms(1,4) have z: "seq_length t = 0" by (simp add: inv_seq_empty)
  with assms(6) have el: "eligible t c" by (simp add: eligible_def)
  from feed_code[OF assms(1,2,3,5) el] obtain n where nz: "0 \<notin> set (code_midpoints c)"
    and p: "parse_all t (code_midpoints c) =
       found_code c (t\<lparr>seq := seq t @ [cname c], seq_length := seq_length t + 1,
         seq_codelength := n\<rparr>)"
    by blast
  have "parse_all t (code_midpoints c) =
      Inr (t\<lparr>seq := [cname c], seq_length := 1, seq_codelength := n,
         seq_protocol := findProt_id (protocol t) (protId c)\<rparr>)"
    unfolding p using assms(4,6) z by (simp add: found_code_def)
  with nz show ?thesis by blast
qed

lemma replay_next:
  assumes "invariant t" and "unambiguous t" and "all_reset t" and "seq t \<noteq> []"
    and "seq_protocol t = Some p" and "c \<in> set (code t)" and "protId c = pid p"
    and "has c SP_ANY" and "\<not> has c SP_END" and "seq_length t + 1 \<noteq> maxCodeLen p"
    and "length (seq t) \<noteq> 117"
  shows "0 \<notin> set (code_midpoints c) \<and>
    (\<exists>n. parse_all t (code_midpoints c) =
       Inr (t\<lparr>seq := seq t @ [cname c], seq_length := seq_length t + 1, seq_codelength := n\<rparr>))"
proof -
  from assms(1,4) have z: "seq_length t \<noteq> 0" by (simp add: inv_seq_empty)
  with assms(5,7,8) have el: "eligible t c" by (simp add: eligible_def)
  from feed_code[OF assms(1,2,3,6) el] obtain n where nz: "0 \<notin> set (code_midpoints c)"
    and p: "parse_all t (code_midpoints c) =
       found_code c (t\<lparr>seq := seq t @ [cname c], seq_length := seq_length t + 1,
         seq_codelength := n\<rparr>)"
    by blast
  have l: "unat (seq_length t + 1) \<noteq> MAX_SEQUENCE_LENGTH - 2"
    using assms(11) by (simp add: inv_len_suc[OF assms(1)] MAX_SEQUENCE_LENGTH_def)
  have "parse_all t (code_midpoints c) =
      Inr (t\<lparr>seq := seq t @ [cname c], seq_length := seq_length t + 1, seq_codelength := n\<rparr>)"
    unfolding p using assms(5,9,10) z l by (simp add: found_code_def)
  with nz show ?thesis by blast
qed

lemma replay_last:
  assumes "invariant t" and "unambiguous t" and "all_reset t" and "seq t \<noteq> []"
    and "seq_protocol t = Some p" and "c \<in> set (code t)" and "protId c = pid p"
    and "has c SP_ANY" and "has c SP_END \<or> seq_length t + 1 = maxCodeLen p"
    and "callbackFunc t" and "minCodeLen p \<le> seq_length t + 1"
  shows "0 \<notin> set (code_midpoints c) \<and>
    parse_all t (code_midpoints c) =
       Inr (resetCode True (emit (take 63 (pname p @ '' '' @ cstr (seq t @ [cname c]))) t))"
proof -
  from assms(1,4) have z: "seq_length t \<noteq> 0" by (simp add: inv_seq_empty)
  with assms(5,7,8) have el: "eligible t c" by (simp add: eligible_def)
  from feed_code[OF assms(1,2,3,6) el] obtain n where nz: "0 \<notin> set (code_midpoints c)"
    and p: "parse_all t (code_midpoints c) =
       found_code c (t\<lparr>seq := seq t @ [cname c], seq_length := seq_length t + 1,
         seq_codelength := n\<rparr>)"
    by blast
  have r: "\<And>str a b. resetCode True (emit str (t\<lparr>seq := a, seq_length := b, seq_codelength := n\<rparr>))
      = resetCode True (emit str t)"
    by (simp add: resetCode_True_eq emit_def)
  have "parse_all t (code_midpoints c) =
      Inr (resetCode True (emit (take 63 (pname p @ '' '' @ cstr (seq t @ [cname c]))) t))"
    unfolding p using assms(5,9,10,11) z by (auto simp add: found_code_def r)
  with nz show ?thesis by blast
qed


lemma inv_seq_length:
  assumes "invariant s"
  shows "seq_length s = of_nat (length (seq s))"
proof -
  from assms have "length (seq s) = unat (seq_length s)" by (simp add: invariant_def)
  then show ?thesis by simp
qed

lemma unambiguous_cong:
  "protocol u = protocol t \<Longrightarrow> code u = code t \<Longrightarrow> unambiguous u = unambiguous t"
  by (simp add: unambiguous_def)

lemma all_reset_cong: "code u = code t \<Longrightarrow> all_reset u = all_reset t"
  by (simp add: all_reset_def)

lemma char_timings_cong: "code u = code t \<Longrightarrow> char_timings u p = char_timings t p"
  by (rule ext) (simp add: char_timings_def)

lemma replay_followers:
  assumes "invariant t" and "unambiguous t" and "all_reset t" and "seq t \<noteq> []"
    and "seq_protocol t = Some p" and "followers (code t) p (Suc (length (seq t))) chars"
    and "length (seq t) + length chars < 118"
  shows "0 \<notin> set (concat (map (char_timings t p) chars)) \<and>
    (\<exists>n. parse_all t (concat (map (char_timings t p) chars)) =
       Inr (t\<lparr>seq := seq t @ chars, seq_length := of_nat (length (seq t @ chars)),
         seq_codelength := n\<rparr>) \<and>
       invariant (t\<lparr>seq := seq t @ chars, seq_length := of_nat (length (seq t @ chars)),
         seq_codelength := n\<rparr>))"
  using assms
proof (induction chars arbitrary: t)
  case Nil
  have e: "t\<lparr>seq := seq t @ [], seq_length := of_nat (length (seq t @ [])),
      seq_codelength := seq_codelength t\<rparr> = t"
    using inv_seq_length[OF Nil.prems(1)] by simp
  show ?case
  proof (intro conjI exI[of _ "seq_codelength t"])
    show "0 \<notin> set (concat (map (char_timings t p) []))" by simp
    show "parse_all t (concat (map (char_timings t p) [])) =
       Inr (t\<lparr>seq := seq t @ [], seq_length := of_nat (length (seq t @ [])),
         seq_codelength := seq_codelength t\<rparr>)"
      unfolding e by simp
    show "invariant (t\<lparr>seq := seq t @ [], seq_length := of_nat (length (seq t @ [])),
         seq_codelength := seq_codelength t\<rparr>)"
      unfolding e by (rule Nil.prems(1))
  qed
next
  case (Cons ch chars)
  note inv = Cons.prems(1) and una = Cons.prems(2) and rst = Cons.prems(3)
  from Cons.prems(6) obtain c where c: "c \<in> set (code t)" "cname c = ch" "protId c = pid p"
    "has c SP_ANY" "\<not> has c SP_END" "of_nat (Suc (length (seq t))) \<noteq> maxCodeLen p"
    and rest: "followers (code t) p (Suc (Suc (length (seq t)))) chars"
    by (auto simp: follower_def)
  have mx: "seq_length t + 1 \<noteq> maxCodeLen p"
    using c(6) unfolding inv_len_word[OF inv] by simp
  have l117: "length (seq t) \<noteq> 117" using Cons.prems(7) by simp
  from replay_next[OF inv una rst Cons.prems(4,5) c(1,3,4,5) mx l117]
  obtain n where nz: "0 \<notin> set (code_midpoints c)"
    and p1: "parse_all t (code_midpoints c) =
       Inr (t\<lparr>seq := seq t @ [cname c], seq_length := seq_length t + 1, seq_codelength := n\<rparr>)"
    by blast
  let ?t1 = "t\<lparr>seq := seq t @ [cname c], seq_length := seq_length t + 1, seq_codelength := n\<rparr>"
  from inv Cons.prems(4) have z: "seq_length t \<noteq> 0" by (simp add: inv_seq_empty)
  with Cons.prems(5) c(3,4) have el: "eligible t c" by (simp add: eligible_def)
  have "invariant (t\<lparr>code := map cdef (code t), seq := seq t @ [cname c],
       seq_length := seq_length t + 1, seq_codelength := n\<rparr>)"
    by (rule inv_next[OF inv c(1) el Cons.prems(4,5) c(5) mx l117])
  then have inv1: "invariant ?t1"
    unfolding all_reset_cdef[OF rst] by simp
  have una1: "unambiguous ?t1" using una by (simp add: unambiguous_cong[of ?t1 t])
  have rst1: "all_reset ?t1" using rst by (simp add: all_reset_cong[of ?t1 t])
  have ct: "char_timings ?t1 p = char_timings t p" by (simp add: char_timings_cong[of ?t1 t])
  have f1: "followers (code ?t1) p (Suc (length (seq ?t1))) chars" using rest by simp
  have b1: "length (seq ?t1) + length chars < 118" using Cons.prems(7) by simp
  from Cons.IH[OF inv1 una1 rst1 _ _ f1 b1] Cons.prems(5)
  obtain m where nz2: "0 \<notin> set (concat (map (char_timings t p) chars))"
    and p2: "parse_all ?t1 (concat (map (char_timings t p) chars)) =
       Inr (?t1\<lparr>seq := seq ?t1 @ chars, seq_length := of_nat (length (seq ?t1 @ chars)),
         seq_codelength := m\<rparr>)"
    and inv2: "invariant (?t1\<lparr>seq := seq ?t1 @ chars, seq_length := of_nat (length (seq ?t1 @ chars)),
         seq_codelength := m\<rparr>)"
    unfolding ct by auto
  have st: "?t1\<lparr>seq := seq ?t1 @ chars, seq_length := of_nat (length (seq ?t1 @ chars)),
         seq_codelength := m\<rparr> =
      t\<lparr>seq := seq t @ ch # chars, seq_length := of_nat (length (seq t @ ch # chars)),
         seq_codelength := m\<rparr>"
    using c(2) by simp
  have ctc: "char_timings t p ch = code_midpoints c"
    using char_timings_key[OF una c(1,3)] c(2) by simp
  have "parse_all t (concat (map (char_timings t p) (ch # chars))) =
      Inr (t\<lparr>seq := seq t @ ch # chars, seq_length := of_nat (length (seq t @ ch # chars)),
         seq_codelength := m\<rparr>)"
    using p2 unfolding st by (simp add: ctc parse_all_append[OF nz] p1)
  moreover have "0 \<notin> set (concat (map (char_timings t p) (ch # chars)))"
    using nz nz2 by (simp add: ctc)
  ultimately show ?case using inv2 unfolding st by blast
qed


lemma code_midpoints_cdef [simp]: "code_midpoints (cdef c) = code_midpoints c"
  by (simp add: code_midpoints_def)

lemma fits_at_cdef_simp [simp]: "fits_at (cdef y) i d = fits_at y i d"
  by (rule fits_at_cdef) simp

lemma told_apart_cdef [simp]: "told_apart (cdef x) (cdef y) = told_apart x y"
  by (simp add: told_apart_def)

lemma comparable_cdef [simp]: "comparable (cdef x) (cdef y) = comparable x y"
  by (simp add: comparable_def)

lemma unambiguous_reset:
  assumes "protocol t = protocol s" and "code t = map cdef (code s)"
  shows "unambiguous t = unambiguous s"
  by (simp add: unambiguous_def assms comp_def)

lemma replay_sequence:
  assumes "invariant t" and "unambiguous t" and "all_reset t" and "seq t = []"
    and "callbackFunc t"
    and "locked_by (code t) (protocol t) p ch1" and "followers (code t) p 2 rest"
    and "c \<in> set (code t)" and "protId c = pid p" and "has c SP_ANY"
    and "has c SP_END \<or> of_nat (length rest + 2) = maxCodeLen p"
    and "minCodeLen p \<le> of_nat (length rest + 2)" and "length rest < 117"
  shows "parse_all t (concat (map (char_timings t p) (ch1 # rest @ [cname c])) @ [0]) =
     Inr (resetCode True (emit (take 63 (pname p @ '' '' @ cstr (ch1 # rest @ [cname c]))) t))"
proof -
  from assms(6) obtain c1 where c1: "c1 \<in> set (code t)" "cname c1 = ch1" "has c1 SP_START"
    "findProt_id (protocol t) (protId c1) = Some p"
    by (auto simp: locked_by_def)
  from findProt_id_Some[OF c1(4)] have pc1: "protId c1 = pid p" by simp
  from replay_first[OF assms(1,2,3,4) c1(1,3)] obtain n where nz1: "0 \<notin> set (code_midpoints c1)"
    and p1: "parse_all t (code_midpoints c1) =
       Inr (t\<lparr>seq := [ch1], seq_length := 1, seq_codelength := n, seq_protocol := Some p\<rparr>)"
    unfolding c1(2,4) by blast
  let ?t1 = "t\<lparr>seq := [ch1], seq_length := 1, seq_codelength := n, seq_protocol := Some p\<rparr>"
  have "invariant (t\<lparr>code := map cdef (code t), seq := [cname c1], seq_length := 1,
       seq_codelength := n, seq_protocol := findProt_id (protocol t) (protId c1)\<rparr>)"
    by (rule inv_first[OF assms(1) c1(1,3)])
  then have inv1: "invariant ?t1"
    unfolding all_reset_cdef[OF assms(3)] c1(2,4) by simp
  have una1: "unambiguous ?t1" using assms(2) by (simp add: unambiguous_cong[of ?t1 t])
  have rst1: "all_reset ?t1" using assms(3) by (simp add: all_reset_cong[of ?t1 t])
  have ct1: "char_timings ?t1 p = char_timings t p" by (simp add: char_timings_cong[of ?t1 t])
  have f1: "followers (code ?t1) p (Suc (length (seq ?t1))) rest" using assms(7) by (simp add: numeral_2_eq_2)
  have b1: "length (seq ?t1) + length rest < 118" using assms(13) by simp
  from replay_followers[OF inv1 una1 rst1 _ _ f1 b1]
  obtain m where nz2: "0 \<notin> set (concat (map (char_timings t p) rest))"
    and p2: "parse_all ?t1 (concat (map (char_timings t p) rest)) =
       Inr (?t1\<lparr>seq := seq ?t1 @ rest, seq_length := of_nat (length (seq ?t1 @ rest)),
         seq_codelength := m\<rparr>)"
    and inv2: "invariant (?t1\<lparr>seq := seq ?t1 @ rest, seq_length := of_nat (length (seq ?t1 @ rest)),
         seq_codelength := m\<rparr>)"
    unfolding ct1 by auto
  let ?t2 = "?t1\<lparr>seq := seq ?t1 @ rest, seq_length := of_nat (length (seq ?t1 @ rest)),
         seq_codelength := m\<rparr>"
  have una2: "unambiguous ?t2"
    by (rule iffD2[OF unambiguous_cong assms(2)]) simp_all
  have rst2: "all_reset ?t2"
    by (rule iffD2[OF all_reset_cong assms(3)]) simp
  have sl: "seq_length ?t2 + 1 = of_nat (length rest + 2)" by simp
  have c2: "c \<in> set (code ?t2)" using assms(8) by simp
  have e2: "has c SP_END \<or> seq_length ?t2 + 1 = maxCodeLen p"
    using assms(11) unfolding sl .
  have m2: "minCodeLen p \<le> seq_length ?t2 + 1"
    using assms(12) unfolding sl .
  from replay_last[OF inv2 una2 rst2 _ _ c2 assms(9,10) e2 _ m2] assms(5)
  have nz3: "0 \<notin> set (code_midpoints c)"
    and p3: "parse_all ?t2 (code_midpoints c) =
       Inr (resetCode True (emit (take 63 (pname p @ '' '' @ cstr (seq ?t2 @ [cname c]))) ?t2))"
    by simp_all
  have r: "resetCode True (emit (take 63 (pname p @ '' '' @ cstr (seq ?t2 @ [cname c]))) ?t2) =
      resetCode True (emit (take 63 (pname p @ '' '' @ cstr (ch1 # rest @ [cname c]))) t)"
    by (simp add: resetCode_True_eq emit_def)
  have ctc1: "char_timings t p ch1 = code_midpoints c1"
    using char_timings_key[OF assms(2) c1(1) pc1] c1(2) by simp
  have ctc: "char_timings t p (cname c) = code_midpoints c"
    by (rule char_timings_key[OF assms(2,8,9)])
  have "concat (map (char_timings t p) (ch1 # rest @ [cname c])) @ [0] =
      code_midpoints c1 @ (concat (map (char_timings t p) rest) @ (code_midpoints c @ [0]))"
    by (simp add: ctc1 ctc)
  then show ?thesis
    using p3 unfolding r
    by (simp add: parse_all_append[OF nz1] p1 parse_all_append[OF nz2] p2
        parse_all_append[OF nz3])
qed


lemma findProt_name_distinct:
  assumes "distinct (map pname ps)" and "p \<in> set ps" and "NUL \<notin> set (pname p)"
  shows "findProt_name ps (pname p) = Some p"
proof -
  have c: "cstr (pname p) = pname p"
    unfolding cstr_def using assms(3) by auto
  from assms(1,2) show ?thesis
  proof (induction ps)
    case Nil
    then show ?case by simp
  next
    case (Cons a ps)
    show ?case
    proof (cases "pname a = pname p")
      case True
      with Cons.prems have "a = p" by (auto simp: image_iff)
      with c show ?thesis by simp
    next
      case False
      with Cons c show ?thesis by auto
    qed
  qed
qed

lemma compose_text:
  assumes "unambiguous t" and "p \<in> set (protocol t)"
    and "\<forall>c \<in> set (code t). ok_code (protocol t) c"
    and "NUL \<notin> set chars" and "len < 0 \<or> int (length chars) \<le> len"
  shows "compose t (pname p @ '' '' @ chars) True len =
     Inr (Some (concat (map (char_timings t p) chars) @ [0]))"
proof -
  from assms(1,2) have d: "distinct (map pname (protocol t))"
    and sp: "CHR '' '' \<notin> set (pname p)" and nn: "NUL \<notin> set (pname p)"
    and ln: "length (pname p) < PROTNAME_LEN"
    by (simp_all add: unambiguous_def)
  have c: "cstr (pname p @ '' '' @ chars) = pname p @ '' '' @ chars"
    unfolding cstr_def using nn assms(4) by (auto simp: NUL_def)
  have sp': "\<And>x. x \<in> set (pname p) \<Longrightarrow> x \<noteq> CHR '' ''"
    using sp by auto
  have tk: "takeWhile (\<lambda>ch. ch \<noteq> CHR '' '') (take (PROTNAME_LEN - 1) (pname p @ '' '' @ chars)) = pname p"
  proof -
    have "take (PROTNAME_LEN - 1) (pname p @ '' '' @ chars) =
        pname p @ take (PROTNAME_LEN - 1 - length (pname p)) ('' '' @ chars)"
      using ln by simp
    moreover have "takeWhile (\<lambda>ch. ch \<noteq> CHR '' '')
        (take (PROTNAME_LEN - 1 - length (pname p)) ('' '' @ chars)) = []"
      by (cases "PROTNAME_LEN - 1 - length (pname p)") simp_all
    ultimately show ?thesis
      by (simp only: takeWhile_append2[OF sp'] append_Nil2)
  qed
  have dr: "tl (dropWhile (\<lambda>ch. ch \<noteq> CHR '' '') (pname p @ '' '' @ chars)) = chars"
    by (simp only: dropWhile_append2[OF sp']) simp
  have sl: "\<forall>c \<in> set (code t). unat (clength c) \<le> length (minTime c) \<and> unat (clength c) \<le> length (maxTime c)"
    using assms(3) by (simp add: ok_code_def)
  have all: "\<not> len < 0 \<Longrightarrow> take (nat len) chars = chars"
    using assms(5) by auto
  show ?thesis
    unfolding compose_def c Let_def tk dr findProt_name_distinct[OF d assms(2) nn]
      compose_loop_eq[OF sl]
    by (simp add: all)
qed

lemma followers_names:
  "followers cs p n str \<Longrightarrow> \<forall>ch \<in> set str. \<exists>c \<in> set cs. cname c = ch"
  by (induction str arbitrary: n) (auto simp: follower_def)

lemma emission_cases:
  assumes "invariant s" and "parse s d = Inr s'" and "sink s' = sink s @ [str]"
    and "\<not> no_match s d"
  shows "\<exists>c p. find (completes s d) (code s) = Some c \<and> seq s \<noteq> [] \<and> seq_protocol s = Some p \<and>
     (has c SP_END \<or> seq_length s + 1 = maxCodeLen p) \<and> callbackFunc s \<and>
     minCodeLen p \<le> seq_length s + 1 \<and>
     str = take 63 (pname p @ '' '' @ cstr (seq s @ [cname c])) \<and>
     s' = resetCode True (emit str s)"
proof (cases "protocol s = []")
  case True
  then have "parse s d = Inr s" by (subst parse.simps) simp
  with assms(2,3) show ?thesis by simp
next
  case ne: False
  show ?thesis
  proof (cases "find (completes s d) (code s)")
    case None
    from assms(4) have "\<exists>c \<in> set (code s). accepts s d c" by (simp add: no_match_def)
    from parse_advance[OF assms(1) ne None this] assms(2,3) show ?thesis by auto
  next
    case (Some c)
    show ?thesis
    proof (cases "seq s = []")
      case True
      from parse_first[OF assms(1) ne Some True] assms(2,3) show ?thesis by auto
    next
      case False
      with assms(1) obtain p where p: "seq_protocol s = Some p"
        by (auto simp: invariant_def seq_inv_def split: list.splits option.splits)
      note pl = parse_later[OF assms(1) ne Some False p]
      show ?thesis
      proof (cases "(has c SP_END \<or> seq_length s + 1 = maxCodeLen p) \<and>
          callbackFunc s \<and> minCodeLen p \<le> seq_length s + 1")
        case True
        with pl assms(2) have s': "s' = resetCode True
            (emit (take 63 (pname p @ '' '' @ cstr (seq s @ [cname c]))) s)"
          by simp
        then have "sink s' = sink s @ [take 63 (pname p @ '' '' @ cstr (seq s @ [cname c]))]"
          by (simp add: emit_def)
        with assms(3) have "str = take 63 (pname p @ '' '' @ cstr (seq s @ [cname c]))" by simp
        with True Some False p s' show ?thesis by simp
      next
        case False
        with pl assms(2) have "sink s' = sink s"
          by (auto split: if_splits)
        with assms(3) show ?thesis by simp
      qed
    qed
  qed
qed


lemma take_short: "length (take n xs) < n \<Longrightarrow> take n xs = xs"
  by simp

lemma reset_idle_emit:
  "resetCode True (emit str (resetCode True u)) = (resetCode True u)\<lparr>sink := sink u @ [str]\<rparr>"
  by (simp add: resetCode_True_eq emit_def)

text \<open>
  C5, as the code has it. Let the matcher, on an unambiguous table, pass a sequence text
  to the callback, and let the text be shorter than the 63 characters the callback
  buffer holds. Then \<^verbatim>\<open>compose\<close> on that text, with \<open>len\<close> negative or at least the
  length of the text, writes a duration list, and \<^verbatim>\<open>parse\<close> on that list, from the
  state the matcher is in after the emission, passes the same text to the callback
  again and changes nothing else.
\<close>

theorem compose_parse_roundtrip:
  assumes "invariant s" and "unambiguous s" and "parse s d = Inr s'"
    and "sink s' = sink s @ [str]" and "\<not> no_match s d"
    and "length str < 63" and "len < 0 \<or> int (length str) \<le> len"
  shows "\<exists>ts. compose s' str True len = Inr (Some ts) \<and>
     parse_all s' ts = Inr (s'\<lparr>sink := sink s' @ [str]\<rparr>)"
proof -
  from emission_cases[OF assms(1,3,4,5)] obtain c p
    where fnd: "find (completes s d) (code s) = Some c" and ne: "seq s \<noteq> []"
      and lk: "seq_protocol s = Some p"
      and en: "has c SP_END \<or> seq_length s + 1 = maxCodeLen p"
      and cb: "callbackFunc s" and mn: "minCodeLen p \<le> seq_length s + 1"
      and str: "str = take 63 (pname p @ '' '' @ cstr (seq s @ [cname c]))"
      and s': "s' = resetCode True (emit str s)"
    by blast
  note fc = find_completes_Some[OF fnd]
  from ne obtain ch1 rest where sq: "seq s = ch1 # rest" by (cases "seq s") auto
  from assms(1) sq lk have lb: "locked_by (code s) (protocol s) p ch1"
    and fl: "followers (code s) p 2 rest" and ln: "length rest < 117"
    by (simp_all add: invariant_def seq_inv_def MAX_SEQUENCE_LENGTH_def)
  from assms(1) have ok: "\<forall>c \<in> set (code s). ok_code (protocol s) c"
    by (simp add: invariant_def)
  from assms(1) ne have nz: "seq_length s \<noteq> 0" by (simp add: inv_seq_empty)
  with fc(4) lk have pc: "protId c = pid p" and an: "has c SP_ANY"
    by (simp_all add: eligible_def)
  have sl: "seq_length s + 1 = of_nat (length rest + 2)"
    unfolding inv_len_word[OF assms(1)] sq by simp
  from assms(2) have names: "\<forall>c \<in> set (code s). cname c \<noteq> NUL"
    by (simp add: unambiguous_def)
  from lb names have n1: "ch1 \<noteq> NUL" by (auto simp: locked_by_def)
  from followers_names[OF fl] names have n2: "NUL \<notin> set rest" by auto
  from fc(1) names have n3: "cname c \<noteq> NUL" by simp
  let ?chars = "ch1 # rest @ [cname c]"
  from n1 n2 n3 have nn: "NUL \<notin> set ?chars" by auto
  then have cs: "cstr ?chars = ?chars"
    unfolding cstr_def by auto
  have str2: "str = take 63 (pname p @ '' '' @ ?chars)"
    unfolding str sq using cs by simp
  have full: "str = pname p @ '' '' @ ?chars"
    using take_short[of 63 "pname p @ '' '' @ ?chars"] assms(6)
    unfolding str2 by blast
  let ?t = "resetCode True (emit str s)"
  have it: "invariant ?t" by (rule inv_reset(2)[OF ok])
  have ut: "unambiguous ?t"
    by (rule iffD2[OF unambiguous_reset assms(2)]) (simp_all add: emit_def)
  have rt: "all_reset ?t" by (simp add: all_reset_def)
  have lbt: "locked_by (code ?t) (protocol ?t) p ch1" using lb by (simp add: emit_def)
  have flt: "followers (code ?t) p 2 rest" using fl by (simp add: emit_def)
  have ct: "cdef c \<in> set (code ?t)" using fc(1) by (simp add: emit_def)
  from lb obtain c1 :: Code where "findProt_id (protocol s) (protId c1) = Some p"
    by (auto simp: locked_by_def)
  from findProt_id_Some[OF this] have pt: "p \<in> set (protocol ?t)" by (simp add: emit_def)
  have okt: "\<forall>c \<in> set (code ?t). ok_code (protocol ?t) c"
    using it by (simp add: invariant_def)
  have lc: "len < 0 \<or> int (length ?chars) \<le> len"
    using assms(7) unfolding full by auto
  have "compose ?t (pname p @ '' '' @ ?chars) True len =
      Inr (Some (concat (map (char_timings ?t p) ?chars) @ [0]))"
    by (rule compose_text[OF ut pt okt nn lc])
  then have cmp: "compose ?t str True len =
      Inr (Some (concat (map (char_timings ?t p) ?chars) @ [0]))"
    unfolding full[symmetric] .
  have e2: "has (cdef c) SP_END \<or> of_nat (length rest + 2) = maxCodeLen p"
    using en unfolding sl by simp
  have m2: "minCodeLen p \<le> of_nat (length rest + 2)"
    using mn unfolding sl .
  have "parse_all ?t (concat (map (char_timings ?t p) (ch1 # rest @ [cname (cdef c)])) @ [0]) =
      Inr (resetCode True (emit (take 63 (pname p @ '' '' @ cstr (ch1 # rest @ [cname (cdef c)]))) ?t))"
    by (rule replay_sequence[OF it ut rt _ _ lbt flt ct _ _ e2 m2 ln])
       (simp_all add: cb pc an emit_def)
  then have rp: "parse_all ?t (concat (map (char_timings ?t p) ?chars) @ [0]) =
      Inr (resetCode True (emit str ?t))"
    unfolding str2 using cs by simp
  have fin: "resetCode True (emit str ?t) = ?t\<lparr>sink := sink ?t @ [str]\<rparr>"
    using reset_idle_emit[of str "emit str s"] by simp
  show ?thesis
    unfolding s' using cmp rp fin by simp
qed

lemma plain_unambiguous: "unambiguous (plain_after 1)"
  by (simp add: unambiguous_def plain_after_def plain_eq key_def comparable_def told_apart_def
      fits_at_def fits_def code_midpoints_def midpoint_def has_def consts_defs less_Suc_eq)

theorem compose_parse_roundtrip_witness:
  "invariant (plain_after 1) \<and> unambiguous (plain_after 1) \<and>
   parse (plain_after 1) 5000 = Inr (plain\<lparr>sink := [''p sax'']\<rparr>) \<and>
   \<not> no_match (plain_after 1) 5000 \<and>
   compose (plain\<lparr>sink := [''p sax'']\<rparr>) ''p sax'' True 100 = Inr (Some [1000, 500, 5000, 0]) \<and>
   parse_all (plain\<lparr>sink := [''p sax'']\<rparr>) [1000, 500, 5000, 0] =
     Inr (plain\<lparr>sink := [''p sax'', ''p sax'']\<rparr>)"
  using compose_parse_roundtrip [of "plain_after 1" 5000 "plain\<lparr>sink := [''p sax'']\<rparr>" "''p sax''" 100]
    plain_unambiguous
  by (simp add: plain_after_def plain_eq inv_defs eval_defs parse.simps no_match_def accepts_def
      compose_def code_timings_def midpoint_def cstr_def upt_rec)

text \<open>
  C5 as stated fails on a table with overlapping windows: the durations 1000, 700 are
  recognised as \<^verbatim>\<open>p sb\<close> (700 fits the end code \<^verbatim>\<open>b\<close> only), \<^verbatim>\<open>compose\<close> turns the text
  into 1000, 600, and 600 is recognised as the data code \<^verbatim>\<open>a\<close>, which comes first in
  the table: the sequence read back is \<^verbatim>\<open>sa\<close> and nothing is emitted.
\<close>

theorem roundtrip_counterexample:
  "parse_all overlap [1000, 700] = Inr (overlap\<lparr>sink := [''p sb'']\<rparr>) \<and>
   compose (overlap\<lparr>sink := [''p sb'']\<rparr>) ''p sb'' True 100 = Inr (Some [1000, 600, 0]) \<and>
   parse_all (overlap\<lparr>sink := [''p sb'']\<rparr>) [1000, 600, 0] =
     Inr (overlap\<lparr>sink := [''p sb''], seq := ''sa'', seq_length := 2, seq_codelength := 2,
       seq_protocol := Some (hd (protocol overlap))\<rparr>)"
  by (simp add: parse.simps compose_def code_timings_def midpoint_def overlap_eq eval_defs cstr_def upt_rec)

end
